theory Spec2Isabelle
  imports Main "HOL-Library.Sublist"
begin

section \<open>Data model of \<^verbatim>\<open>earley.py\<close>\<close>

text \<open>
  Symbols are Python strings. A \<^verbatim>\<open>Rule\<close> object has the fields \<^verbatim>\<open>lhs\<close> and \<^verbatim>\<open>rhs\<close>; the class
  defines no \<^verbatim>\<open>__eq__\<close>, so \<^verbatim>\<open>==\<close> on rules is object identity. The field \<open>rid\<close> stands for
  that identity: two rule values are the same Python object exactly when they are equal
  as records.
\<close>

type_synonym symbol = string

record Rule =
  rid :: nat
  lhs :: symbol
  rhs :: "symbol list"

text \<open>
  \<^verbatim>\<open>Grammar.rules\<close> is a dict from a left-hand symbol to the list of its rules. Python dicts
  are finite and keep insertion order, so the dict is an association list with distinct
  keys; \<^verbatim>\<open>d[k]\<close> is \<open>map_of d k\<close>, and a missing key raises \<^verbatim>\<open>KeyError\<close>.
\<close>

record Grammar =
  rules :: "(symbol \<times> Rule list) list"
  start_rule :: symbol

datatype error = KeyError symbol | IndexError | RecursionError

text \<open>
  \<^verbatim>\<open>Grammar.__init__\<close>: for each rule, a new key gets the one-element list, an existing key
  gets the rule appended to its list. There is no other statement in the constructor.
\<close>

fun dict_set :: "(symbol \<times> Rule list) list \<Rightarrow> symbol \<Rightarrow> Rule list \<Rightarrow> (symbol \<times> Rule list) list" where
  "dict_set [] k v = [(k, v)]"
| "dict_set ((k', v') # d) k v = (if k' = k then (k, v) # d else (k', v') # dict_set d k v)"

definition add_rule :: "(symbol \<times> Rule list) list \<Rightarrow> Rule \<Rightarrow> (symbol \<times> Rule list) list" where
  "add_rule d r =
     (case map_of d (lhs r) of
        None \<Rightarrow> dict_set d (lhs r) [r]
      | Some rs \<Rightarrow> dict_set d (lhs r) (rs @ [r]))"

definition Grammar_init :: "Rule list \<Rightarrow> symbol \<Rightarrow> Grammar" where
  "Grammar_init rs s = \<lparr>rules = foldl add_rule [] rs, start_rule = s\<rparr>"

text \<open>
  An \<^verbatim>\<open>EarleyItem\<close> holds a rule, the origin \<^verbatim>\<open>start\<close>, the \<^verbatim>\<open>dot\<close> and the list \<^verbatim>\<open>prev\<close> of
  back-pointers (references to items, which are never mutated after construction).
  \<^verbatim>\<open>start\<close> and \<^verbatim>\<open>dot\<close> are only ever built from \<^verbatim>\<open>0\<close>, an \<^verbatim>\<open>enumerate\<close> index and \<^verbatim>\<open>+1\<close>, hence
  natural numbers.
\<close>

datatype EarleyItem =
  EarleyItem (rule: Rule) (start: nat) (dot: nat) (prev: "EarleyItem list")

text \<open>\<^verbatim>\<open>EarleyItem.__eq__\<close> compares rule, start and dot; \<^verbatim>\<open>prev\<close> is not compared.\<close>

definition item_eq :: "EarleyItem \<Rightarrow> EarleyItem \<Rightarrow> bool" where
  "item_eq self other \<longleftrightarrow>
     rule self = rule other \<and> start self = start other \<and> dot self = dot other"

text \<open>
  \<^verbatim>\<open>ItemSet(list)\<close>: \<^verbatim>\<open>append\<close> adds the value at the end unless \<^verbatim>\<open>list.__contains__\<close> finds an
  element equal to it. The method has no \<^verbatim>\<open>return\<close> statement, so the call evaluates to
  \<^verbatim>\<open>None\<close>. The model returns the value of the call and the updated list.
\<close>

datatype pyvalue = PyNone | PyBool bool

definition list_contains :: "EarleyItem list \<Rightarrow> EarleyItem \<Rightarrow> bool" where
  "list_contains self val = list_ex (\<lambda>x. item_eq x val) self"

definition ItemSet_append :: "EarleyItem list \<Rightarrow> EarleyItem \<Rightarrow> pyvalue \<times> EarleyItem list" where
  "ItemSet_append self val =
     (if \<not> list_contains self val then (PyNone, self @ [val]) else (PyNone, self))"

text \<open>\<^verbatim>\<open>ItemSet.extend\<close> over a list of values that is already built: one \<^verbatim>\<open>append\<close> each.\<close>

fun ItemSet_extend :: "EarleyItem list \<Rightarrow> EarleyItem list \<Rightarrow> EarleyItem list" where
  "ItemSet_extend self [] = self"
| "ItemSet_extend self (val # values) = ItemSet_extend (snd (ItemSet_append self val)) values"

datatype EarleyState = Complete | Terminal | NonTerminal

definition next_symb :: "EarleyItem \<Rightarrow> symbol set \<Rightarrow> EarleyState \<times> symbol option" where
  "next_symb earley_item terminals =
     (if dot earley_item < length (rhs (rule earley_item)) then
        (let symb = rhs (rule earley_item) ! dot earley_item
         in (if symb \<in> terminals then Terminal else NonTerminal, Some symb))
      else (Complete, None))"

section \<open>The three transitions\<close>

type_synonym chart = "EarleyItem list list"

text \<open>
  The chart is the Python list \<^verbatim>\<open>earley_item_set\<close> of \<^verbatim>\<open>ItemSet\<close> objects, all distinct
  objects. A parameter \<^verbatim>\<open>item_set\<close> of the source is always one of them and is passed
  here as its index \<open>i\<close>; the mutation of that object is an update of the chart at \<open>i\<close>.
\<close>

definition predict :: "Grammar \<Rightarrow> chart \<Rightarrow> symbol \<Rightarrow> nat \<Rightarrow> error + chart" where
  "predict grammar ch symb i =
     (case map_of (rules grammar) symb of
        None \<Rightarrow> Inl (KeyError symb)
      | Some rs \<Rightarrow> Inr (ch[i := ItemSet_extend (ch ! i) (map (\<lambda>r. EarleyItem r i 0 []) rs)]))"

definition scan :: "chart \<Rightarrow> EarleyItem \<Rightarrow> symbol \<Rightarrow> symbol \<Rightarrow> nat \<Rightarrow> error + chart" where
  "scan ch item symb word i =
     (if symb = word then
        (if i + 1 < length ch then
           Inr (ch[i + 1 := snd (ItemSet_append (ch ! (i + 1))
                  (EarleyItem (rule item) (start item) (dot item + 1) (prev item)))])
         else Inl IndexError)
      else Inr ch)"

text \<open>
  \<^verbatim>\<open>complete\<close> hands \<^verbatim>\<open>item_set.extend\<close> a lazy \<^verbatim>\<open>map\<close> over a lazy \<^verbatim>\<open>filter\<close> over the list
  object \<^verbatim>\<open>earley_item_set[item.start]\<close>. \<^verbatim>\<open>extend\<close> pulls one value at a time and appends it,
  so the source list is read through a cursor \<open>k\<close> that is compared with the current
  length at every step. When \<open>item.start\<close> is the position of \<^verbatim>\<open>item_set\<close> itself the list
  that is read is the list that grows.
\<close>

definition advance :: "EarleyItem \<Rightarrow> EarleyItem \<Rightarrow> EarleyItem" where
  "advance item it = EarleyItem (rule it) (start it) (dot it + 1) (prev it @ [item])"

definition expects :: "symbol set \<Rightarrow> EarleyItem \<Rightarrow> EarleyItem \<Rightarrow> bool" where
  "expects terminals item old_item \<longleftrightarrow>
     snd (next_symb old_item terminals) = Some (lhs (rule item))"

function complete_loop :: "symbol set \<Rightarrow> EarleyItem \<Rightarrow> nat \<Rightarrow> nat \<Rightarrow> nat \<Rightarrow> chart \<Rightarrow> chart" where
  "complete_loop terminals item src dst k ch =
     (if src < length ch \<and> k < length (ch ! src) then
        (let old_item = ch ! src ! k in
         if expects terminals item old_item
         then complete_loop terminals item src dst (Suc k)
                (ch[dst := snd (ItemSet_append (ch ! dst) (advance item old_item))])
         else complete_loop terminals item src dst (Suc k) ch)
      else ch)"
  by pat_completeness auto

subsection \<open>Termination of the cursor loop of \<^verbatim>\<open>complete\<close>\<close>

text \<open>
  An append adds an item only when its \<open>key\<close> is new, and every key that can be added lies
  in a finite set fixed by the rules and origins already present. The length of a list
  plus the number of keys still missing from it therefore never grows, and bounds the
  cursor.
\<close>

definition key :: "EarleyItem \<Rightarrow> Rule \<times> nat \<times> nat" where
  "key it = (rule it, start it, dot it)"

definition universe :: "Rule set \<Rightarrow> nat set \<Rightarrow> (Rule \<times> nat \<times> nat) set" where
  "universe RR SS = (SIGMA r:RR. SS \<times> {..length (rhs r)})"

definition bound :: "Rule set \<Rightarrow> nat set \<Rightarrow> EarleyItem list \<Rightarrow> nat" where
  "bound RR SS S = length S + card (universe RR SS - key ` set S)"

lemma finite_universe: "finite RR \<Longrightarrow> finite SS \<Longrightarrow> finite (universe RR SS)"
  by (simp add: universe_def)

lemma list_contains_key: "list_contains S v \<longleftrightarrow> key v \<in> key ` set S"
proof -
  have "item_eq x v \<longleftrightarrow> key x = key v" for x
    by (auto simp: item_eq_def key_def)
  then show ?thesis
    by (auto simp: list_contains_def list_ex_iff image_iff) metis
qed

lemma append_cases:
  "snd (ItemSet_append S v) = (if key v \<in> key ` set S then S else S @ [v])"
  by (simp add: ItemSet_append_def list_contains_key)

lemma bound_append:
  assumes "finite RR" "finite SS" "key v \<in> universe RR SS"
  shows "bound RR SS (snd (ItemSet_append S v)) \<le> bound RR SS S"
proof (cases "key v \<in> key ` set S")
  case True
  then show ?thesis by (simp add: append_cases)
next
  case False
  let ?U = "universe RR SS"
  have fin: "finite (?U - key ` set S)"
    using assms finite_universe by blast
  have in_diff: "key v \<in> ?U - key ` set S"
    using assms False by blast
  have "?U - key ` set (S @ [v]) = (?U - key ` set S) - {key v}"
    by auto
  then have "card (?U - key ` set (S @ [v])) = card (?U - key ` set S) - 1"
    using fin in_diff by simp
  moreover have "0 < card (?U - key ` set S)"
    using fin in_diff by (auto simp: card_gt_0_iff)
  ultimately show ?thesis
    using False by (simp add: append_cases bound_def)
qed

definition own_bound :: "EarleyItem list \<Rightarrow> nat" where
  "own_bound S = bound (rule ` set S) (start ` set S) S"

lemma expects_dot: "expects T item old \<Longrightarrow> dot old < length (rhs (rule old))"
  by (auto simp: expects_def next_symb_def Let_def split: if_splits)

lemma own_bound_append:
  assumes "old \<in> set S" "expects T item old"
  shows "own_bound (snd (ItemSet_append S (advance item old))) \<le> own_bound S"
proof -
  let ?v = "advance item old"
  let ?S' = "snd (ItemSet_append S ?v)"
  have r: "rule ` set ?S' = rule ` set S" and s: "start ` set ?S' = start ` set S"
    using assms(1) by (auto simp: append_cases advance_def)
  have "key ?v \<in> universe (rule ` set S) (start ` set S)"
    using assms expects_dot[OF assms(2)] by (auto simp: key_def advance_def universe_def)
  then have "bound (rule ` set S) (start ` set S) ?S' \<le> bound (rule ` set S) (start ` set S) S"
    by (intro bound_append) auto
  then show ?thesis by (simp add: own_bound_def r s)
qed

lemma length_le_own_bound: "length S \<le> own_bound S"
  by (simp add: own_bound_def bound_def)

termination complete_loop
proof (relation "measure (\<lambda>(T, item, src, dst, k, ch).
          (if src = dst then own_bound (ch ! src) else length (ch ! src)) - k)", goal_cases)
  case 1
  show ?case by simp
next
  case (2 T item src dst k ch old)
  then have k: "k < length (ch ! src)" and src: "src < length ch" and old: "old \<in> set (ch ! src)"
    by auto
  show ?case
  proof (cases "src = dst")
    case True
    have "own_bound (snd (ItemSet_append (ch ! src) (advance item old))) \<le> own_bound (ch ! src)"
      using old 2 by (intro own_bound_append) auto
    moreover have "k < own_bound (ch ! src)"
      using k length_le_own_bound[of "ch ! src"] by simp
    ultimately show ?thesis using True src by simp
  next
    case False
    then show ?thesis using k by simp
  qed
next
  case (3 T item src dst k ch old)
  then have k: "k < length (ch ! src)" by auto
  then show ?case using length_le_own_bound[of "ch ! src"] by auto
qed

text \<open>
  \<^verbatim>\<open>complete(earley_item_set, item_set, item, terminals)\<close>, with \<^verbatim>\<open>item_set\<close> the collection at
  position \<open>i\<close>. Reading \<^verbatim>\<open>earley_item_set[item.start]\<close> raises \<^verbatim>\<open>IndexError\<close> out of range.
\<close>

definition complete :: "chart \<Rightarrow> nat \<Rightarrow> EarleyItem \<Rightarrow> symbol set \<Rightarrow> error + chart" where
  "complete ch i item terminals =
     (if start item < length ch then Inr (complete_loop terminals item (start item) i 0 ch)
      else Inl IndexError)"

section \<open>The driver\<close>

text \<open>
  The body of the inner loop of \<^verbatim>\<open>earley\<close>. \<^verbatim>\<open>next_symb\<close> returns \<^verbatim>\<open>None\<close> as symbol only together
  with \<^verbatim>\<open>Complete\<close>, so the last case is never taken.
\<close>

definition dispatch :: "Grammar \<Rightarrow> symbol set \<Rightarrow> symbol \<Rightarrow> nat \<Rightarrow> EarleyItem \<Rightarrow> chart \<Rightarrow> error + chart" where
  "dispatch grammar terminals word i item ch =
     (case next_symb item terminals of
        (Complete, _) \<Rightarrow> complete ch i item terminals
      | (NonTerminal, Some symb) \<Rightarrow> predict grammar ch symb i
      | (Terminal, Some symb) \<Rightarrow> scan ch item symb word i
      | (_, None) \<Rightarrow> Inr ch)"

text \<open>
  \<^verbatim>\<open>for item in item_set\<close> reads the collection at position \<open>i\<close> through a cursor \<open>k\<close>, and the
  body may append to that collection while the loop runs. An exception ends the loop.
\<close>

function earley_items :: "Grammar \<Rightarrow> symbol set \<Rightarrow> symbol \<Rightarrow> nat \<Rightarrow> nat \<Rightarrow> chart \<Rightarrow> error + chart" where
  "earley_items grammar terminals word i k ch =
     (if k < length (ch ! i) then
        (case dispatch grammar terminals word i (ch ! i ! k) ch of
           Inl e \<Rightarrow> Inl e
         | Inr ch' \<Rightarrow> earley_items grammar terminals word i (Suc k) ch')
      else Inr ch)"
  by pat_completeness auto

subsection \<open>Termination of the loop over one position\<close>

definition items_of :: "chart \<Rightarrow> EarleyItem set" where
  "items_of ch = \<Union> (set ` set ch)"

definition chart_universe :: "Rule set \<Rightarrow> nat \<Rightarrow> chart \<Rightarrow> (Rule \<times> nat \<times> nat) set" where
  "chart_universe RR i ch = universe (RR \<union> rule ` items_of ch) (insert i (start ` items_of ch))"

definition chart_bound :: "Rule set \<Rightarrow> nat \<Rightarrow> chart \<Rightarrow> nat" where
  "chart_bound RR i ch = length (ch ! i) + card (chart_universe RR i ch - key ` set (ch ! i))"

definition no_growth :: "Rule set \<Rightarrow> nat \<Rightarrow> chart \<Rightarrow> chart \<Rightarrow> bool" where
  "no_growth RR i ch ch' \<longleftrightarrow>
     length ch' = length ch \<and> chart_universe RR i ch' \<subseteq> chart_universe RR i ch \<and>
     chart_bound RR i ch' \<le> chart_bound RR i ch"

lemma no_growth_refl: "no_growth RR i ch ch"
  by (simp add: no_growth_def)

lemma no_growth_trans: "no_growth RR i a b \<Longrightarrow> no_growth RR i b c \<Longrightarrow> no_growth RR i a c"
  by (auto simp: no_growth_def)

lemma finite_items_of: "finite (items_of ch)"
  by (simp add: items_of_def)

lemma finite_chart_universe: "finite RR \<Longrightarrow> finite (chart_universe RR i ch)"
  by (simp add: chart_universe_def finite_universe finite_items_of)

lemma universe_mono: "RR \<subseteq> RR' \<Longrightarrow> SS \<subseteq> SS' \<Longrightarrow> universe RR SS \<subseteq> universe RR' SS'"
  by (auto simp: universe_def)

lemma items_of_update: "items_of (ch[j := xs]) \<subseteq> items_of ch \<union> set xs"
proof
  fix x assume "x \<in> items_of (ch[j := xs])"
  then obtain ys where ys: "ys \<in> set (ch[j := xs])" "x \<in> set ys"
    by (auto simp: items_of_def)
  from ys(1) have "ys = xs \<or> ys \<in> set ch"
    using set_update_subset_insert[of ch j xs] by auto
  with ys(2) show "x \<in> items_of ch \<union> set xs"
    by (auto simp: items_of_def)
qed

lemma nth_items_of: "j < length ch \<Longrightarrow> set (ch ! j) \<subseteq> items_of ch"
  by (auto simp: items_of_def intro!: bexI[of _ "ch ! j"])

lemma key_in_chart_universe:
  "key v \<in> chart_universe RR i ch \<longleftrightarrow>
     (rule v \<in> RR \<or> rule v \<in> rule ` items_of ch) \<and>
     (start v = i \<or> start v \<in> start ` items_of ch) \<and> dot v \<le> length (rhs (rule v))"
  by (auto simp: key_def chart_universe_def universe_def)

lemma no_growth_append:
  assumes fin: "finite RR" and j: "j < length ch" and v: "key v \<in> chart_universe RR i ch"
  shows "no_growth RR i ch (ch[j := snd (ItemSet_append (ch ! j) v)])"
proof -
  let ?S' = "snd (ItemSet_append (ch ! j) v)"
  let ?ch' = "ch[j := ?S']"
  let ?U = "chart_universe RR i ch"
  have "set ?S' \<subseteq> insert v (set (ch ! j))"
    by (auto simp: append_cases)
  then have items: "items_of ?ch' \<subseteq> insert v (items_of ch)"
    using items_of_update[of ch j ?S'] nth_items_of[OF j] by auto
  have sub: "chart_universe RR i ?ch' \<subseteq> ?U"
  proof
    fix x assume x: "x \<in> chart_universe RR i ?ch'"
    obtain r s d where [simp]: "x = (r, s, d)" by (cases x)
    from x have r: "r \<in> RR \<or> r \<in> rule ` items_of ?ch'" and s: "s = i \<or> s \<in> start ` items_of ?ch'"
      and d: "d \<le> length (rhs r)"
      by (auto simp: chart_universe_def universe_def)
    from r items v have "r \<in> RR \<or> r \<in> rule ` items_of ch"
      by (auto simp: key_in_chart_universe)
    moreover from s items v have "s = i \<or> s \<in> start ` items_of ch"
      by (auto simp: key_in_chart_universe)
    ultimately show "x \<in> ?U"
      using d by (auto simp: chart_universe_def universe_def)
  qed
  have finU: "finite ?U" by (rule finite_chart_universe[OF fin])
  have "chart_bound RR i ?ch' \<le> length (?ch' ! i) + card (?U - key ` set (?ch' ! i))"
    unfolding chart_bound_def using sub finU
    by (intro add_left_mono card_mono) auto
  also have "\<dots> \<le> chart_bound RR i ch"
  proof (cases "i = j")
    case True
    have "bound (RR \<union> rule ` items_of ch) (insert i (start ` items_of ch)) ?S'
            \<le> bound (RR \<union> rule ` items_of ch) (insert i (start ` items_of ch)) (ch ! j)"
      using v fin by (intro bound_append) (auto simp: chart_universe_def finite_items_of)
    then show ?thesis
      using True j by (simp add: chart_bound_def chart_universe_def bound_def)
  next
    case False
    then show ?thesis by (simp add: chart_bound_def)
  qed
  finally show ?thesis
    using sub by (simp add: no_growth_def)
qed

declare complete_loop.simps [simp del]

lemma no_growth_complete_loop:
  assumes "finite RR"
  shows "no_growth RR i ch (complete_loop T item src dst k ch)"
  using assms
proof (induction T item src dst k ch rule: complete_loop.induct)
  case (1 T item src dst k ch)
  show ?case
  proof (cases "src < length ch \<and> k < length (ch ! src)")
    case False
    then show ?thesis by (subst complete_loop.simps) (auto simp: no_growth_refl)
  next
    case True
    let ?old = "ch ! src ! k"
    show ?thesis
    proof (cases "expects T item ?old")
      case False
      with True 1 show ?thesis by (subst complete_loop.simps) simp
    next
      case ex: True
      let ?ch' = "ch[dst := snd (ItemSet_append (ch ! dst) (advance item ?old))]"
      have old: "?old \<in> items_of ch"
        using True nth_items_of[of src ch] by auto
      have kv: "key (advance item ?old) \<in> chart_universe RR i ch"
        using old expects_dot[OF ex] by (auto simp: key_in_chart_universe advance_def)
      have step: "no_growth RR i ch ?ch'"
      proof (cases "dst < length ch")
        case True
        then show ?thesis using kv 1(3) by (intro no_growth_append)
      next
        case False
        then have "length ch \<le> dst" by simp
        then show ?thesis by (simp add: no_growth_refl list_update_beyond)
      qed
      have "no_growth RR i ?ch' (complete_loop T item src dst (Suc k) ?ch')"
        using 1(1)[OF True refl ex] 1(3) by simp
      with step have "no_growth RR i ch (complete_loop T item src dst (Suc k) ?ch')"
        by (rule no_growth_trans)
      then show ?thesis using True ex by (subst complete_loop.simps) simp
    qed
  qed
qed


definition grammar_rules :: "Grammar \<Rightarrow> Rule set" where
  "grammar_rules g = \<Union> (set ` snd ` set (rules g))"

lemma finite_grammar_rules: "finite (grammar_rules g)"
  by (simp add: grammar_rules_def)

lemma lookup_grammar_rules: "map_of (rules g) symb = Some rs \<Longrightarrow> set rs \<subseteq> grammar_rules g"
  by (force simp: grammar_rules_def dest: map_of_SomeD)

lemma no_growth_extend:
  assumes "finite RR" "j < length ch" "\<forall>v\<in>set vs. rule v \<in> RR \<and> start v = i \<and> dot v = 0"
  shows "no_growth RR i ch (ch[j := ItemSet_extend (ch ! j) vs])"
  using assms(2,3)
proof (induction vs arbitrary: ch)
  case Nil
  then show ?case by (simp add: no_growth_refl)
next
  case (Cons v vs)
  let ?ch' = "ch[j := snd (ItemSet_append (ch ! j) v)]"
  have "key v \<in> chart_universe RR i ch"
    using Cons.prems by (simp add: key_in_chart_universe)
  then have a: "no_growth RR i ch ?ch'"
    using assms(1) Cons.prems(1) by (intro no_growth_append)
  have "no_growth RR i ?ch' (?ch'[j := ItemSet_extend (?ch' ! j) vs])"
    using Cons.prems by (intro Cons.IH) auto
  with a have "no_growth RR i ch (?ch'[j := ItemSet_extend (?ch' ! j) vs])"
    by (rule no_growth_trans)
  then show ?case using Cons.prems(1) by simp
qed

lemma next_symb_cases:
  "next_symb item T = (st, sy) \<Longrightarrow>
     (st = Complete \<and> sy = None \<and> length (rhs (rule item)) \<le> dot item) \<or>
     (st \<noteq> Complete \<and> dot item < length (rhs (rule item)) \<and> sy = Some (rhs (rule item) ! dot item) \<and>
      (st = Terminal \<longleftrightarrow> rhs (rule item) ! dot item \<in> T) \<and>
      (st = NonTerminal \<longleftrightarrow> rhs (rule item) ! dot item \<notin> T))"
  by (auto simp: next_symb_def Let_def split: if_splits)

lemma no_growth_dispatch:
  assumes "i < length ch" "item \<in> set (ch ! i)" "dispatch g T word i item ch = Inr ch'"
  shows "no_growth (grammar_rules g) i ch ch'"
proof -
  obtain st sy where ns: "next_symb item T = (st, sy)" by (cases "next_symb item T")
  note c = next_symb_cases[OF ns]
  have item: "item \<in> items_of ch" using assms(1,2) nth_items_of by blast
  show ?thesis
  proof (cases st)
    case Complete
    with assms(3) ns have "ch' = complete_loop T item (start item) i 0 ch"
      by (auto simp: dispatch_def complete_def split: if_splits)
    then show ?thesis
      by (simp add: no_growth_complete_loop finite_grammar_rules)
  next
    case Terminal
    with c obtain symb where sy: "sy = Some symb" and d: "dot item < length (rhs (rule item))" by auto
    let ?v = "EarleyItem (rule item) (start item) (dot item + 1) (prev item)"
    have kv: "key ?v \<in> chart_universe (grammar_rules g) i ch"
      using item d by (auto simp: key_in_chart_universe)
    from assms(3) ns Terminal sy
    have "ch' = ch \<or> (i + 1 < length ch \<and> ch' = ch[i + 1 := snd (ItemSet_append (ch ! (i + 1)) ?v)])"
      by (auto simp: dispatch_def scan_def split: if_splits)
    then show ?thesis
      using kv no_growth_append[OF finite_grammar_rules _ kv, of "i + 1"]
      by (auto simp: no_growth_refl)
  next
    case NonTerminal
    with c obtain symb where sy: "sy = Some symb" by auto
    from assms(3) ns NonTerminal sy obtain rs where
      rs: "map_of (rules g) symb = Some rs"
      and ch': "ch' = ch[i := ItemSet_extend (ch ! i) (map (\<lambda>r. EarleyItem r i 0 []) rs)]"
      by (auto simp: dispatch_def predict_def split: option.splits)
    show ?thesis
      unfolding ch' using lookup_grammar_rules[OF rs] assms(1)
      by (intro no_growth_extend finite_grammar_rules) auto
  qed
qed

lemma complete_loop_beyond: "length ch \<le> dst \<Longrightarrow> complete_loop T item src dst k ch = ch"
proof (induction T item src dst k ch rule: complete_loop.induct)
  case (1 T item src dst k ch)
  then show ?case
    by (subst complete_loop.simps) (auto simp: Let_def list_update_beyond)
qed

lemma dispatch_beyond:
  assumes "length ch \<le> i" "dispatch g T word i item ch = Inr ch'"
  shows "ch' = ch"
proof -
  obtain st sy where ns: "next_symb item T = (st, sy)" by (cases "next_symb item T")
  show ?thesis
    using assms ns
    by (cases st; cases sy)
       (auto simp: dispatch_def complete_def predict_def scan_def complete_loop_beyond
                   list_update_beyond
             split: if_splits option.splits)
qed

lemma chart_bound_ge: "length (ch ! i) \<le> chart_bound RR i ch"
  by (simp add: chart_bound_def)

termination earley_items
proof (relation "measure (\<lambda>(g, T, word, i, k, ch).
          (if i < length ch then chart_bound (grammar_rules g) i ch else length (ch ! i)) - k)",
       goal_cases)
  case 1
  show ?case by simp
next
  case (2 g T word i k ch ch')
  then have k: "k < length (ch ! i)" and d: "dispatch g T word i (ch ! i ! k) ch = Inr ch'"
    by auto
  show ?case
  proof (cases "i < length ch")
    case True
    have "no_growth (grammar_rules g) i ch ch'"
      using True k d by (intro no_growth_dispatch[where item = "ch ! i ! k"]) auto
    then have "length ch' = length ch" "chart_bound (grammar_rules g) i ch' \<le> chart_bound (grammar_rules g) i ch"
      by (auto simp: no_growth_def)
    then show ?thesis
      using True k chart_bound_ge[of ch i "grammar_rules g"] by simp
  next
    case False
    then have "ch' = ch" using d dispatch_beyond[of ch i] by simp
    then show ?thesis using False k by simp
  qed
qed

declare earley_items.simps [simp del]

text \<open>
  \<^verbatim>\<open>for i, (word, item_set) in enumerate(zip(sentence, earley_item_set))\<close>: \<^verbatim>\<open>zip\<close> stops when
  the sentence or the chart is exhausted.
\<close>

fun earley_positions :: "Grammar \<Rightarrow> symbol set \<Rightarrow> symbol list \<Rightarrow> nat \<Rightarrow> chart \<Rightarrow> error + chart" where
  "earley_positions grammar terminals [] i ch = Inr ch"
| "earley_positions grammar terminals (word # sentence) i ch =
     (if i < length ch then
        (case earley_items grammar terminals word i 0 ch of
           Inl e \<Rightarrow> Inl e
         | Inr ch' \<Rightarrow> earley_positions grammar terminals sentence (Suc i) ch')
      else Inr ch)"

text \<open>
  The last loop of \<^verbatim>\<open>earley\<close>, over the collection \<^verbatim>\<open>earley_item_set[-1]\<close> at index \<open>n\<close>: only
  the \<^verbatim>\<open>Complete\<close> branch has a body.
\<close>

function earley_final :: "symbol set \<Rightarrow> nat \<Rightarrow> nat \<Rightarrow> chart \<Rightarrow> error + chart" where
  "earley_final terminals n k ch =
     (if k < length (ch ! n) then
        (case next_symb (ch ! n ! k) terminals of
           (Complete, _) \<Rightarrow>
             (case complete ch n (ch ! n ! k) terminals of
                Inl e \<Rightarrow> Inl e
              | Inr ch' \<Rightarrow> earley_final terminals n (Suc k) ch')
         | _ \<Rightarrow> earley_final terminals n (Suc k) ch)
      else Inr ch)"
  by pat_completeness auto

lemma complete_Inr:
  "complete ch i item T = Inr ch' \<Longrightarrow> ch' = complete_loop T item (start item) i 0 ch"
  by (auto simp: complete_def split: if_splits)

termination earley_final
proof (relation "measure (\<lambda>(T, n, k, ch).
          (if n < length ch then chart_bound {} n ch else length (ch ! n)) - k)", goal_cases)
  case 1
  show ?case by simp
next
  case (2 T n k ch st sy ch')
  then have k: "k < length (ch ! n)" and c: "complete ch n (ch ! n ! k) T = Inr ch'"
    by auto
  note eq = complete_Inr[OF c]
  show ?case
  proof (cases "n < length ch")
    case True
    have "no_growth {} n ch ch'"
      unfolding eq by (rule no_growth_complete_loop) simp
    then have "length ch' = length ch" "chart_bound {} n ch' \<le> chart_bound {} n ch"
      by (auto simp: no_growth_def)
    then show ?thesis
      using True k chart_bound_ge[of ch n "{}"] by simp
  next
    case False
    then have "ch' = ch" using eq complete_loop_beyond[of ch n] by simp
    then show ?thesis using False k by simp
  qed
next
  case (3 T n k ch st sy)
  then show ?case using chart_bound_ge[of ch n "{}"] by auto
next
  case (4 T n k ch st sy)
  then show ?case using chart_bound_ge[of ch n "{}"] by auto
qed

declare earley_final.simps [simp del]

text \<open>
  \<^verbatim>\<open>earley\<close>: \<^verbatim>\<open>grammar.rules[grammar.start_rule]\<close> raises \<^verbatim>\<open>KeyError\<close> when the start symbol has
  no rules. The first collection is built by the \<^verbatim>\<open>list\<close> constructor from one item per
  start rule (no call of \<^verbatim>\<open>append\<close>), followed by one empty collection per input symbol.
  \<^verbatim>\<open>earley_item_set[-1]\<close> raises \<^verbatim>\<open>IndexError\<close> on an empty chart.
\<close>

definition initial_chart :: "Rule list \<Rightarrow> symbol list \<Rightarrow> chart" where
  "initial_chart rs sentence = map (\<lambda>r. EarleyItem r 0 0 []) rs # replicate (length sentence) []"

definition earley :: "Grammar \<Rightarrow> symbol set \<Rightarrow> symbol list \<Rightarrow> error + chart" where
  "earley grammar terminals sentence =
     (case map_of (rules grammar) (start_rule grammar) of
        None \<Rightarrow> Inl (KeyError (start_rule grammar))
      | Some rs \<Rightarrow>
          (case earley_positions grammar terminals sentence 0 (initial_chart rs sentence) of
             Inl e \<Rightarrow> Inl e
           | Inr ch \<Rightarrow>
               (if ch = [] then Inl IndexError
                else earley_final terminals (length ch - 1) 0 ch)))"

section \<open>Derivation extraction and the acceptance check\<close>

text \<open>
  \<^verbatim>\<open>to_lr\<close> calls itself once for every level of back-pointers, and each call is a frame
  of the interpreter, which raises \<^verbatim>\<open>RecursionError\<close> when the frames nest deeper than it
  allows. \<open>frames\<close> is the number of nested calls of \<^verbatim>\<open>to_lr\<close> that are still allowed where
  it is called (at most the recursion limit, \<open>1000\<close> unless it is changed; the script does not
  change it). \<^verbatim>\<open>sum(xs, [])\<close> adds the lists of \<^verbatim>\<open>xs\<close> to \<^verbatim>\<open>[]\<close> from left to right, and an
  exception raised for an element ends it.
\<close>

fun sum_lists :: "(error + Rule list) list \<Rightarrow> Rule list \<Rightarrow> error + Rule list" where
  "sum_lists [] acc = Inr acc"
| "sum_lists (Inl e # xs) acc = Inl e"
| "sum_lists (Inr x # xs) acc = sum_lists xs (acc @ x)"

fun to_lr :: "nat \<Rightarrow> EarleyItem \<Rightarrow> error + Rule list" where
  "to_lr 0 item = Inl RecursionError"
| "to_lr (Suc frames) (EarleyItem r s d p) =
     (case sum_lists (map (to_lr frames) p) [] of
        Inl e \<Rightarrow> Inl e
      | Inr rs \<Rightarrow> Inr (rs @ [r]))"

text \<open>
  The end of the script: the length test, then the first item of the last collection
  that satisfies the three conditions; \<open>None\<close> stands for \<^verbatim>\<open>Incorrect sentence.\<close> and
  \<^verbatim>\<open>exit(1)\<close>. \<open>main\<close> is the script from the construction of the grammar on, with the rules,
  the start symbol, the terminals and the sentence as parameters, and with the number of
  frames that the call of \<^verbatim>\<open>to_lr\<close> may nest; its result is the list of rules that is
  printed.
\<close>

definition accepting :: "symbol \<Rightarrow> EarleyItem \<Rightarrow> bool" where
  "accepting s item \<longleftrightarrow>
     dot item = length (rhs (rule item)) \<and> start item = 0 \<and> lhs (rule item) = s"

definition acceptance :: "chart \<Rightarrow> symbol list \<Rightarrow> symbol \<Rightarrow> EarleyItem option" where
  "acceptance earley_set sentence s =
     (if length earley_set \<noteq> length sentence + 1 then None
      else find (accepting s) (last earley_set))"

definition main :: "nat \<Rightarrow> Rule list \<Rightarrow> symbol \<Rightarrow> symbol set \<Rightarrow> symbol list \<Rightarrow> error + Rule list option" where
  "main frames rs s terminals sentence =
     (case earley (Grammar_init rs s) terminals sentence of
        Inl e \<Rightarrow> Inl e
      | Inr earley_set \<Rightarrow>
          (case acceptance earley_set sentence s of
             None \<Rightarrow> Inr None
           | Some last_item \<Rightarrow>
               (case to_lr frames last_item of
                  Inl e \<Rightarrow> Inl e
                | Inr derivation \<Rightarrow> Inr (Some (rev derivation)))))"

section \<open>Properties of the extraction and of \<^verbatim>\<open>append\<close>\<close>

text \<open>
  The extraction as the specification words it: the extractions of the back-pointers, in
  their order, concatenated, followed by the item's own rule. \<open>nesting\<close> is the number of
  levels of back-pointers of an item, the item itself included: the number of frames that
  \<^verbatim>\<open>to_lr\<close> nests on it.
\<close>

fun post_order :: "EarleyItem \<Rightarrow> Rule list" where
  "post_order (EarleyItem r s d p) = concat (map post_order p) @ [r]"

fun nesting :: "EarleyItem \<Rightarrow> nat" where
  "nesting (EarleyItem r s d p) = Suc (foldr max (map nesting p) 0)"

text \<open>
  The rules and the terminals of the script (lines 139 to 150), the identity of a rule being
  its index in the list, and the item that the script extracts from for \<open>k\<close> pairs of
  parentheses around the digit \<open>1\<close>, in a sentence that has \<open>n\<close> symbols before the digit.
\<close>

definition script_rules :: "Rule list" where
  "script_rules =
     [\<lparr>rid = 0, lhs = ''expr'', rhs = [''expr'', ''+'', ''expr'']\<rparr>,
      \<lparr>rid = 1, lhs = ''expr'', rhs = [''expr'', ''-'', ''expr'']\<rparr>,
      \<lparr>rid = 2, lhs = ''expr'', rhs = [''expr'', ''*'', ''expr'']\<rparr>,
      \<lparr>rid = 3, lhs = ''expr'', rhs = [''expr'', ''/'', ''expr'']\<rparr>,
      \<lparr>rid = 4, lhs = ''expr'', rhs = [''('', ''expr'', '')'']\<rparr>,
      \<lparr>rid = 5, lhs = ''expr'', rhs = [''term'']\<rparr>] @
     map (\<lambda>(i, c). \<lparr>rid = 6 + i, lhs = ''term'', rhs = [[c]]\<rparr>) (enumerate 0 ''0123456789'')"

definition script_terminals :: "symbol set" where
  "script_terminals = (\<lambda>c. [c]) ` set ''1234567890+-*/()''"

fun parens :: "nat \<Rightarrow> nat \<Rightarrow> EarleyItem" where
  "parens n 0 =
     EarleyItem \<lparr>rid = 5, lhs = ''expr'', rhs = [''term'']\<rparr> n 1
       [EarleyItem \<lparr>rid = 7, lhs = ''term'', rhs = [''1'']\<rparr> n 1 []]"
| "parens n (Suc k) =
     EarleyItem \<lparr>rid = 4, lhs = ''expr'', rhs = [''('', ''expr'', '')'']\<rparr> (n - Suc k) 3
       [parens n k]"

lemma parens_extracted:
  "(case earley (Grammar_init script_rules ''expr'') script_terminals
           [''('', ''('', ''1'', '')'', '')''] of
      Inl e \<Rightarrow> None
    | Inr ch \<Rightarrow> acceptance ch [''('', ''('', ''1'', '')'', '')''] ''expr'')
     = Some (parens 2 2)"
  by code_simp

lemma foldr_max_le: "foldr max xs (0::nat) \<le> n \<longleftrightarrow> (\<forall>x\<in>set xs. x \<le> n)"
  by (induction xs) auto

lemma nesting_le_Suc:
  "nesting (EarleyItem r s d p) \<le> Suc n \<longleftrightarrow> (\<forall>x\<in>set p. nesting x \<le> n)"
  by (simp add: foldr_max_le)

lemma nesting_pos: "0 < nesting item"
  by (cases item) simp

lemma sum_lists_all_Inr:
  "sum_lists (map (\<lambda>x. Inr (f x)) xs) acc = Inr (acc @ concat (map f xs))"
  by (induction xs arbitrary: acc) simp_all

lemma sum_lists_error:
  assumes "\<forall>x\<in>set xs. x = Inl e \<or> (\<exists>y. x = Inr y)" "Inl e \<in> set xs"
  shows "sum_lists xs acc = Inl e"
  using assms
proof (induction xs arbitrary: acc)
  case Nil
  then show ?case by simp
next
  case (Cons x xs)
  show ?case
  proof (cases x)
    case (Inl e')
    with Cons.prems(1) show ?thesis by simp
  next
    case (Inr y)
    with Cons.prems have "Inl e \<in> set xs" "\<forall>x\<in>set xs. x = Inl e \<or> (\<exists>y. x = Inr y)" by auto
    with Inr show ?thesis using Cons.IH by simp
  qed
qed

lemma to_lr_nesting:
  "to_lr frames item =
     (if nesting item \<le> frames then Inr (post_order item) else Inl RecursionError)"
proof (induction frames arbitrary: item)
  case 0
  then show ?case using nesting_pos[of item] by simp
next
  case (Suc n)
  obtain r s d p where item: "item = EarleyItem r s d p" by (cases item)
  show ?case
  proof (cases "\<forall>x\<in>set p. nesting x \<le> n")
    case True
    then have m: "map (to_lr n) p = map (\<lambda>x. Inr (post_order x)) p"
      by (intro map_cong[OF refl]) (simp add: Suc.IH)
    have "sum_lists (map (to_lr n) p) [] = Inr (concat (map post_order p))"
      unfolding m by (simp add: sum_lists_all_Inr)
    with True show ?thesis
      unfolding item by (simp add: nesting_le_Suc del: nesting.simps)
  next
    case False
    then obtain x where x: "x \<in> set p" "\<not> nesting x \<le> n" by blast
    then have "to_lr n x = Inl RecursionError" using Suc.IH by simp
    then have "Inl RecursionError \<in> set (map (to_lr n) p)" using x(1) by force
    moreover have "\<forall>y\<in>set (map (to_lr n) p). y = Inl RecursionError \<or> (\<exists>z. y = Inr z)"
      using Suc.IH by auto
    ultimately have "sum_lists (map (to_lr n) p) [] = Inl RecursionError"
      by (rule sum_lists_error[rotated])
    with False show ?thesis
      unfolding item by (simp add: nesting_le_Suc del: nesting.simps)
  qed
qed

lemma nesting_parens: "nesting (parens n k) = k + 2"
  by (induction k) simp_all

text \<open>
  C6, as the code has it. On an item whose back-pointers nest no deeper than the frames the
  interpreter still allows, \<open>to_lr\<close> returns the extractions of the item's back-pointers, in
  their order, concatenated, followed by the item's own rule, and each of those extractions
  is what \<open>to_lr\<close> returns for the back-pointer. On an item that nests deeper it raises
  \<^verbatim>\<open>RecursionError\<close>. The result is a function of the item and of the frames allowed, so two
  calls on the same item from the same place agree.
\<close>

theorem to_lr_postorder:
  "(nesting item \<le> frames \<longrightarrow>
      to_lr frames item = Inr (post_order item) \<and>
      map (to_lr (frames - 1)) (prev item) = map (\<lambda>b. Inr (post_order b)) (prev item) \<and>
      post_order item = concat (map post_order (prev item)) @ [rule item]) \<and>
   (frames < nesting item \<longrightarrow> to_lr frames item = Inl RecursionError)"
proof -
  obtain r s d p where item: "item = EarleyItem r s d p" by (cases item)
  have "to_lr (frames - 1) b = Inr (post_order b)"
    if le: "nesting item \<le> frames" and b: "b \<in> set p" for b
  proof -
    from le nesting_pos[of item] obtain n where n: "frames = Suc n"
      by (cases frames) auto
    with le b have "nesting b \<le> n"
      unfolding item by (simp add: nesting_le_Suc del: nesting.simps)
    then show ?thesis using n by (simp add: to_lr_nesting)
  qed
  then have "nesting item \<le> frames \<longrightarrow>
      map (to_lr (frames - 1)) (prev item) = map (\<lambda>b. Inr (post_order b)) (prev item)"
    unfolding item by simp
  moreover have "post_order item = concat (map post_order (prev item)) @ [rule item]"
    unfolding item by simp
  ultimately show ?thesis by (simp add: to_lr_nesting)
qed

theorem to_lr_postorder_witness:
  "nesting (EarleyItem \<lparr>rid = 1, lhs = ''S'', rhs = [''A'']\<rparr> 0 1
              [EarleyItem \<lparr>rid = 2, lhs = ''A'', rhs = [''a'']\<rparr> 0 1 []]) \<le> 2 \<and>
   to_lr 2 (EarleyItem \<lparr>rid = 1, lhs = ''S'', rhs = [''A'']\<rparr> 0 1
              [EarleyItem \<lparr>rid = 2, lhs = ''A'', rhs = [''a'']\<rparr> 0 1 []])
     = Inr [\<lparr>rid = 2, lhs = ''A'', rhs = [''a'']\<rparr>,
            \<lparr>rid = 1, lhs = ''S'', rhs = [''A'']\<rparr>] \<and>
   to_lr 1 (EarleyItem \<lparr>rid = 1, lhs = ''S'', rhs = [''A'']\<rparr> 0 1
              [EarleyItem \<lparr>rid = 2, lhs = ''A'', rhs = [''a'']\<rparr> 0 1 []])
     = Inl RecursionError"
proof -
  let ?item = "EarleyItem \<lparr>rid = 1, lhs = ''S'', rhs = [''A'']\<rparr> 0 1
              [EarleyItem \<lparr>rid = 2, lhs = ''A'', rhs = [''a'']\<rparr> 0 1 []]"
  have n: "nesting ?item = 2" by simp
  show ?thesis
    using n to_lr_postorder[of ?item 2] to_lr_postorder[of ?item 1] by simp
qed

text \<open>
  The claim that \<open>to_lr\<close> returns the rule sequence for every item fails. The item that the
  script extracts from for \<open>1000\<close> pairs of parentheses around a digit nests \<open>1002\<close> levels of
  back-pointers; with the \<open>1000\<close> frames of the default recursion limit, \<open>to_lr\<close> raises
  \<^verbatim>\<open>RecursionError\<close> on it.
\<close>

theorem to_lr_recursion_counterexample:
  "nesting (parens 1000 1000) = 1002 \<and>
   to_lr 1000 (parens 1000 1000) = Inl RecursionError"
  using nesting_parens[of 1000 1000] by (simp add: to_lr_nesting)

text \<open>
  C3, as the code has it. \<open>ItemSet.append\<close> adds the value at the end exactly when no entry
  of the collection has the same rule, origin and dot; otherwise the collection is left
  as it is, so the entry found first keeps its back-pointers and those of the later value
  are dropped. The call evaluates to \<open>None\<close> in both cases.
\<close>

theorem append_dedup:
  "snd (ItemSet_append self val) =
     (if \<exists>x\<in>set self. rule x = rule val \<and> start x = start val \<and> dot x = dot val
      then self else self @ [val]) \<and>
   fst (ItemSet_append self val) = PyNone"
  by (auto simp: ItemSet_append_def list_contains_def list_ex_iff item_eq_def)

theorem append_dedup_witness:
  "snd (ItemSet_append [EarleyItem \<lparr>rid = 0, lhs = ''S'', rhs = [''S'']\<rparr> 0 1 []]
          (EarleyItem \<lparr>rid = 0, lhs = ''S'', rhs = [''S'']\<rparr> 0 1
             [EarleyItem \<lparr>rid = 0, lhs = ''S'', rhs = [''S'']\<rparr> 0 1 []]))
     = [EarleyItem \<lparr>rid = 0, lhs = ''S'', rhs = [''S'']\<rparr> 0 1 []] \<and>
   snd (ItemSet_append [] (EarleyItem \<lparr>rid = 0, lhs = ''S'', rhs = [''S'']\<rparr> 0 1 []))
     = [EarleyItem \<lparr>rid = 0, lhs = ''S'', rhs = [''S'']\<rparr> 0 1 []]"
  using append_dedup[of "[EarleyItem \<lparr>rid = 0, lhs = ''S'', rhs = [''S'']\<rparr> 0 1 []]"
          "EarleyItem \<lparr>rid = 0, lhs = ''S'', rhs = [''S'']\<rparr> 0 1
             [EarleyItem \<lparr>rid = 0, lhs = ''S'', rhs = [''S'']\<rparr> 0 1 []]"]
        append_dedup[of "[]" "EarleyItem \<lparr>rid = 0, lhs = ''S'', rhs = [''S'']\<rparr> 0 1 []"]
  by simp

text \<open>
  The claim that \<open>append\<close> returns whether the insertion happened fails: on the empty
  collection the item is inserted, and the value of the call is \<open>None\<close>, not \<open>True\<close>.
\<close>

theorem append_return_counterexample:
  "snd (ItemSet_append [] (EarleyItem \<lparr>rid = 0, lhs = ''S'', rhs = []\<rparr> 0 0 []))
     = [EarleyItem \<lparr>rid = 0, lhs = ''S'', rhs = []\<rparr> 0 0 []] \<and>
   fst (ItemSet_append [] (EarleyItem \<lparr>rid = 0, lhs = ''S'', rhs = []\<rparr> 0 0 [])) \<noteq> PyBool True"
  by (simp add: ItemSet_append_def list_contains_def)

section \<open>Charts as they grow\<close>

text \<open>
  \<open>put\<close> is one \<^verbatim>\<open>append\<close> to the collection at position \<open>j\<close>. \<open>chart_le\<close> says that a chart
  has the same number of collections as an earlier one and that every earlier collection
  is an initial segment of the later one: items are added at the end, none is removed or
  changed. \<open>chart_inv\<close> bounds the origin and the dot of every item of a chart.
  The three \<open>_step\<close> relations are the single appends that the transitions perform.
\<close>

definition put :: "chart \<Rightarrow> nat \<Rightarrow> EarleyItem \<Rightarrow> chart" where
  "put ch j v = ch[j := snd (ItemSet_append (ch ! j) v)]"

definition chart_le :: "chart \<Rightarrow> chart \<Rightarrow> bool" where
  "chart_le ch ch' \<longleftrightarrow> length ch' = length ch \<and> (\<forall>j<length ch. prefix (ch ! j) (ch' ! j))"

definition chart_inv :: "chart \<Rightarrow> bool" where
  "chart_inv ch \<longleftrightarrow>
     (\<forall>i<length ch. \<forall>item\<in>set (ch ! i). start item \<le> i \<and> dot item \<le> length (rhs (rule item)))"

definition finished :: "EarleyItem \<Rightarrow> bool" where
  "finished item \<longleftrightarrow> length (rhs (rule item)) \<le> dot item"

inductive predict_step :: "Grammar \<Rightarrow> nat \<Rightarrow> chart \<Rightarrow> chart \<Rightarrow> bool" for g i where
  "i < length ch \<Longrightarrow> r \<in> grammar_rules g \<Longrightarrow> predict_step g i ch (put ch i (EarleyItem r i 0 []))"

inductive scan_step :: "nat \<Rightarrow> chart \<Rightarrow> chart \<Rightarrow> bool" for i where
  "i + 1 < length ch \<Longrightarrow> it \<in> set (ch ! i) \<Longrightarrow> dot it < length (rhs (rule it)) \<Longrightarrow>
   scan_step i ch (put ch (i + 1) (EarleyItem (rule it) (start it) (dot it + 1) (prev it)))"

inductive complete_step :: "symbol set \<Rightarrow> nat \<Rightarrow> chart \<Rightarrow> chart \<Rightarrow> bool" for T i where
  "i < length ch \<Longrightarrow> e \<in> set (ch ! i) \<Longrightarrow> finished e \<Longrightarrow> start e < length ch \<Longrightarrow>
   old \<in> set (ch ! start e) \<Longrightarrow> expects T e old \<Longrightarrow>
   complete_step T i ch (put ch i (advance e old))"

definition step :: "Grammar \<Rightarrow> symbol set \<Rightarrow> nat \<Rightarrow> chart \<Rightarrow> chart \<Rightarrow> bool" where
  "step g T i ch ch' \<longleftrightarrow> predict_step g i ch ch' \<or> scan_step i ch ch' \<or> complete_step T i ch ch'"

lemma length_put [simp]: "length (put ch j v) = length ch"
  by (simp add: put_def)

lemma put_nth_other: "j' \<noteq> j \<Longrightarrow> put ch j v ! j' = ch ! j'"
  by (simp add: put_def)

lemma put_nth_same:
  "j < length ch \<Longrightarrow> put ch j v ! j = (if key v \<in> key ` set (ch ! j) then ch ! j else ch ! j @ [v])"
  by (simp add: put_def append_cases)

lemma chart_le_refl: "chart_le ch ch"
  by (simp add: chart_le_def)

lemma chart_le_trans: "chart_le a b \<Longrightarrow> chart_le b c \<Longrightarrow> chart_le a c"
  by (auto simp: chart_le_def intro: prefix_order.trans)

lemma chart_le_put: "chart_le ch (put ch j v)"
  unfolding chart_le_def
proof (intro conjI allI impI)
  fix j' assume "j' < length ch"
  then show "prefix (ch ! j') (put ch j v ! j')"
    by (cases "j' = j") (auto simp: put_nth_other put_nth_same)
qed simp

lemma chart_le_length: "chart_le ch ch' \<Longrightarrow> length ch' = length ch"
  by (simp add: chart_le_def)

lemma chart_le_mem: "chart_le ch ch' \<Longrightarrow> j < length ch \<Longrightarrow> x \<in> set (ch ! j) \<Longrightarrow> x \<in> set (ch' ! j)"
  by (auto simp: chart_le_def dest!: set_mono_prefix)

lemma chart_le_nth:
  "chart_le ch ch' \<Longrightarrow> j < length ch \<Longrightarrow> k < length (ch ! j) \<Longrightarrow> ch' ! j ! k = ch ! j ! k"
  by (auto simp: chart_le_def prefix_def nth_append)

lemma step_chart_le: "step g T i ch ch' \<Longrightarrow> chart_le ch ch'"
  by (auto simp: step_def chart_le_put elim: predict_step.cases scan_step.cases complete_step.cases)

lemma steps_chart_le:
  assumes "\<And>a b. R a b \<Longrightarrow> chart_le a b"
  shows "R\<^sup>*\<^sup>* ch ch' \<Longrightarrow> chart_le ch ch'"
  by (induction rule: rtranclp_induct) (auto intro: chart_le_refl chart_le_trans assms)

lemma chart_inv_put:
  assumes "chart_inv ch" "j < length ch \<Longrightarrow> start v \<le> j \<and> dot v \<le> length (rhs (rule v))"
  shows "chart_inv (put ch j v)"
  unfolding chart_inv_def
proof (intro allI impI ballI)
  fix i item assume i: "i < length (put ch j v)" and item: "item \<in> set (put ch j v ! i)"
  show "start item \<le> i \<and> dot item \<le> length (rhs (rule item))"
  proof (cases "i = j")
    case True
    with i item have "item \<in> set (ch ! j) \<or> item = v"
      by (auto simp: put_nth_same split: if_splits)
    with assms True i show ?thesis by (auto simp: chart_inv_def)
  next
    case False
    with i item assms(1) show ?thesis by (auto simp: put_nth_other chart_inv_def)
  qed
qed

lemma step_chart_inv:
  assumes "step g T i ch ch'" "chart_inv ch"
  shows "chart_inv ch'"
  using assms(1) unfolding step_def
proof (elim disjE)
  assume "predict_step g i ch ch'"
  then show ?thesis
    using assms(2) by cases (auto intro!: chart_inv_put)
next
  assume "scan_step i ch ch'"
  then show ?thesis
  proof cases
    case (1 it)
    then have "start it \<le> i" using assms(2) by (auto simp: chart_inv_def)
    with 1 show ?thesis using assms(2) by (auto intro!: chart_inv_put)
  qed
next
  assume "complete_step T i ch ch'"
  then show ?thesis
  proof cases
    case (1 e old)
    then have "start e \<le> i" "start old \<le> start e"
      using assms(2) by (auto simp: chart_inv_def)
    moreover have "dot old < length (rhs (rule old))" using 1 expects_dot by blast
    ultimately show ?thesis
      using 1 assms(2) by (auto intro!: chart_inv_put simp: advance_def)
  qed
qed


lemma complete_loop_unfold:
  "complete_loop T item src dst k ch =
     (if src < length ch \<and> k < length (ch ! src) then
        if expects T item (ch ! src ! k)
        then complete_loop T item src dst (Suc k) (put ch dst (advance item (ch ! src ! k)))
        else complete_loop T item src dst (Suc k) ch
      else ch)"
  by (subst complete_loop.simps) (simp add: put_def Let_def)

lemma put_mem: "j < length ch \<Longrightarrow> x \<in> set (ch ! j) \<Longrightarrow> x \<in> set (put ch j' v ! j)"
  using chart_le_mem[OF chart_le_put] by blast

lemma complete_loop_steps:
  assumes "item \<in> set (ch ! dst)" "dst < length ch" "src = start item" "finished item"
  shows "(complete_step T dst)\<^sup>*\<^sup>* ch (complete_loop T item src dst k ch)"
  using assms
proof (induction T item src dst k ch rule: complete_loop.induct)
  case (1 T item src dst k ch)
  show ?case
  proof (cases "src < length ch \<and> k < length (ch ! src)")
    case False
    then show ?thesis by (subst complete_loop_unfold) auto
  next
    case True
    let ?old = "ch ! src ! k"
    show ?thesis
    proof (cases "expects T item ?old")
      case False
      with True 1 show ?thesis by (subst complete_loop_unfold) simp
    next
      case ex: True
      let ?ch' = "put ch dst (advance item ?old)"
      have "?old \<in> set (ch ! start item)" using True 1(5) by simp
      then have one: "complete_step T dst ch ?ch'"
        using 1(3,4,5,6) True ex by (intro complete_step.intros) auto
      have "item \<in> set (?ch' ! dst)" using 1(3,4) by (simp add: put_mem)
      then have "(complete_step T dst)\<^sup>*\<^sup>* ?ch' (complete_loop T item src dst (Suc k) ?ch')"
        using 1(1)[unfolded put_def[symmetric], OF True refl ex] 1(4,5,6) by simp
      with one have "(complete_step T dst)\<^sup>*\<^sup>* ch (complete_loop T item src dst (Suc k) ?ch')"
        by (rule converse_rtranclp_into_rtranclp)
      then show ?thesis using True ex by (subst complete_loop_unfold) simp
    qed
  qed
qed

lemma extend_put:
  "j < length ch \<Longrightarrow> ch[j := ItemSet_extend (ch ! j) (v # vs)] =
     (put ch j v)[j := ItemSet_extend (put ch j v ! j) vs]"
  by (simp add: put_def)

lemma extend_steps:
  assumes "i < length ch" "set rs \<subseteq> grammar_rules g"
  shows "(predict_step g i)\<^sup>*\<^sup>* ch (ch[i := ItemSet_extend (ch ! i) (map (\<lambda>r. EarleyItem r i 0 []) rs)])"
  using assms
proof (induction rs arbitrary: ch)
  case Nil
  then show ?case by simp
next
  case (Cons r rs)
  let ?ch' = "put ch i (EarleyItem r i 0 [])"
  have one: "predict_step g i ch ?ch'"
    using Cons.prems by (intro predict_step.intros) auto
  have "(predict_step g i)\<^sup>*\<^sup>* ?ch' (?ch'[i := ItemSet_extend (?ch' ! i) (map (\<lambda>r. EarleyItem r i 0 []) rs)])"
    using Cons.prems by (intro Cons.IH) auto
  with one show ?case
    using Cons.prems(1) by (simp add: extend_put[symmetric] del: ItemSet_extend.simps)
qed

lemma finished_iff: "finished item \<longleftrightarrow> fst (next_symb item T) = Complete"
  by (auto simp: finished_def next_symb_def Let_def)

lemma step_mono:
  "(predict_step g i)\<^sup>*\<^sup>* a b \<Longrightarrow> (step g T i)\<^sup>*\<^sup>* a b"
  "(scan_step i)\<^sup>*\<^sup>* a b \<Longrightarrow> (step g T i)\<^sup>*\<^sup>* a b"
  "(complete_step T i)\<^sup>*\<^sup>* a b \<Longrightarrow> (step g T i)\<^sup>*\<^sup>* a b"
  by (erule rtranclp_mono[THEN predicate2D, rotated], auto simp: step_def)+

lemma dispatch_steps:
  assumes "i < length ch" "item \<in> set (ch ! i)" "dispatch g T word i item ch = Inr ch'"
  shows "(step g T i)\<^sup>*\<^sup>* ch ch'"
proof -
  obtain st sy where ns: "next_symb item T = (st, sy)" by (cases "next_symb item T")
  note c = next_symb_cases[OF ns]
  show ?thesis
  proof (cases st)
    case Complete
    with assms(3) ns have ch': "ch' = complete_loop T item (start item) i 0 ch"
      by (auto simp: dispatch_def complete_def split: if_splits)
    have "finished item" using ns Complete by (simp add: finished_iff[of _ T])
    then show ?thesis
      unfolding ch' using assms(1,2) by (intro step_mono(3) complete_loop_steps) auto
  next
    case Terminal
    with c obtain symb where sy: "sy = Some symb" and d: "dot item < length (rhs (rule item))" by auto
    let ?v = "EarleyItem (rule item) (start item) (dot item + 1) (prev item)"
    from assms(3) ns Terminal sy
    have "ch' = ch \<or> (i + 1 < length ch \<and> ch' = put ch (i + 1) ?v)"
      by (auto simp: dispatch_def scan_def put_def split: if_splits)
    then show ?thesis
    proof
      assume "ch' = ch" then show ?thesis by simp
    next
      assume a: "i + 1 < length ch \<and> ch' = put ch (i + 1) ?v"
      then have "scan_step i ch ch'"
        using assms(2) d scan_step.intros[of i ch item] by simp
      then show ?thesis by (auto simp: step_def)
    qed
  next
    case NonTerminal
    with c obtain symb where sy: "sy = Some symb" by auto
    from assms(3) ns NonTerminal sy obtain rs where
      rs: "map_of (rules g) symb = Some rs"
      and ch': "ch' = ch[i := ItemSet_extend (ch ! i) (map (\<lambda>r. EarleyItem r i 0 []) rs)]"
      by (auto simp: dispatch_def predict_def split: option.splits)
    show ?thesis
      unfolding ch' using lookup_grammar_rules[OF rs] assms(1)
      by (intro step_mono(1) extend_steps) auto
  qed
qed

lemma steps_le: "(step g T i)\<^sup>*\<^sup>* ch ch' \<Longrightarrow> chart_le ch ch'"
  by (rule steps_chart_le[of "step g T i"]) (auto dest: step_chart_le)

lemma steps_inv: "(step g T i)\<^sup>*\<^sup>* ch ch' \<Longrightarrow> chart_inv ch \<Longrightarrow> chart_inv ch'"
  by (induction rule: rtranclp_induct) (auto dest: step_chart_inv)

lemma earley_items_steps:
  assumes "i < length ch" "earley_items g T word i k ch = Inr ch'"
  shows "(step g T i)\<^sup>*\<^sup>* ch ch'"
  using assms
proof (induction g T word i k ch rule: earley_items.induct)
  case (1 g T word i k ch)
  show ?case
  proof (cases "k < length (ch ! i)")
    case False
    with 1(3) show ?thesis by (subst (asm) earley_items.simps) simp
  next
    case True
    from 1(3) True obtain ch1 where
      d: "dispatch g T word i (ch ! i ! k) ch = Inr ch1"
      and r: "earley_items g T word i (Suc k) ch1 = Inr ch'"
      by (subst (asm) earley_items.simps) (auto split: sum.splits)
    have s1: "(step g T i)\<^sup>*\<^sup>* ch ch1"
      using 1(2) True d by (intro dispatch_steps[where item = "ch ! i ! k"]) auto
    then have "length ch1 = length ch" by (auto dest: steps_le chart_le_length)
    then have "(step g T i)\<^sup>*\<^sup>* ch1 ch'"
      using 1(1)[OF True d] 1(2) r by simp
    with s1 show ?thesis by simp
  qed
qed


definition any_step :: "Grammar \<Rightarrow> symbol set \<Rightarrow> nat \<Rightarrow> chart \<Rightarrow> chart \<Rightarrow> bool" where
  "any_step g T N ch ch' \<longleftrightarrow> (\<exists>i<N. step g T i ch ch')"

lemma any_step_mono: "i < N \<Longrightarrow> (step g T i)\<^sup>*\<^sup>* a b \<Longrightarrow> (any_step g T N)\<^sup>*\<^sup>* a b"
  by (erule rtranclp_mono[THEN predicate2D, rotated]) (auto simp: any_step_def)

lemma any_steps_le: "(any_step g T N)\<^sup>*\<^sup>* ch ch' \<Longrightarrow> chart_le ch ch'"
  by (rule steps_chart_le[of "any_step g T N"]) (auto simp: any_step_def dest: step_chart_le)

lemma any_steps_inv: "(any_step g T N)\<^sup>*\<^sup>* ch ch' \<Longrightarrow> chart_inv ch \<Longrightarrow> chart_inv ch'"
  by (induction rule: rtranclp_induct) (auto simp: any_step_def dest: step_chart_inv)

lemma earley_positions_steps:
  assumes "earley_positions g T w i ch = Inr ch'" "i + length w \<le> N"
  shows "(any_step g T N)\<^sup>*\<^sup>* ch ch'"
  using assms
proof (induction w arbitrary: i ch)
  case Nil
  then show ?case by simp
next
  case (Cons word w)
  show ?case
  proof (cases "i < length ch")
    case False
    with Cons.prems show ?thesis by simp
  next
    case True
    with Cons.prems(1) obtain ch1 where
      a: "earley_items g T word i 0 ch = Inr ch1"
      and b: "earley_positions g T w (Suc i) ch1 = Inr ch'"
      by (auto split: sum.splits)
    have "(step g T i)\<^sup>*\<^sup>* ch ch1" using True a by (rule earley_items_steps)
    then have "(any_step g T N)\<^sup>*\<^sup>* ch ch1"
      using Cons.prems(2) by (intro any_step_mono[of i]) auto
    moreover have "(any_step g T N)\<^sup>*\<^sup>* ch1 ch'"
      using b Cons.prems(2) by (intro Cons.IH) auto
    ultimately show ?thesis by simp
  qed
qed

lemma earley_final_unfold:
  "earley_final T n k ch =
     (if k < length (ch ! n) then
        if finished (ch ! n ! k) then
          (case complete ch n (ch ! n ! k) T of
             Inl e \<Rightarrow> Inl e
           | Inr ch' \<Rightarrow> earley_final T n (Suc k) ch')
        else earley_final T n (Suc k) ch
      else Inr ch)"
proof -
  obtain st sy where ns: "next_symb (ch ! n ! k) T = (st, sy)"
    by (cases "next_symb (ch ! n ! k) T")
  then have "finished (ch ! n ! k) \<longleftrightarrow> st = Complete"
    by (simp add: finished_iff[of _ T])
  then show ?thesis
    using ns by (subst earley_final.simps) (cases st; simp)
qed

lemma complete_steps:
  assumes "i < length ch" "item \<in> set (ch ! i)" "finished item" "complete ch i item T = Inr ch'"
  shows "(complete_step T i)\<^sup>*\<^sup>* ch ch'"
  using assms complete_loop_steps[of item ch i "start item" T 0]
  by (auto simp: complete_def split: if_splits)

lemma complete_steps_le: "(complete_step T n)\<^sup>*\<^sup>* ch ch' \<Longrightarrow> chart_le ch ch'"
  by (rule steps_chart_le[of "complete_step T n"])
     (auto simp: chart_le_put elim: complete_step.cases)

lemma earley_final_steps:
  assumes "n < length ch" "earley_final T n k ch = Inr ch'"
  shows "(complete_step T n)\<^sup>*\<^sup>* ch ch'"
  using assms
proof (induction T n k ch rule: earley_final.induct)
  case (1 T n k ch)
  show ?case
  proof (cases "k < length (ch ! n)")
    case False
    with 1(5) show ?thesis by (subst (asm) earley_final_unfold) simp
  next
    case True
    obtain st sy where ns: "next_symb (ch ! n ! k) T = (st, sy)"
      by (cases "next_symb (ch ! n ! k) T")
    show ?thesis
    proof (cases "finished (ch ! n ! k)")
      case fin: True
      then have st: "st = Complete" using ns by (simp add: finished_iff[of _ T])
      from 1(5) True fin obtain ch1 where
        c: "complete ch n (ch ! n ! k) T = Inr ch1"
        and r: "earley_final T n (Suc k) ch1 = Inr ch'"
        by (subst (asm) earley_final_unfold) (auto split: sum.splits)
      have s1: "(complete_step T n)\<^sup>*\<^sup>* ch ch1"
        using 1(4) True fin c by (intro complete_steps[where item = "ch ! n ! k"]) auto
      then have "length ch1 = length ch" by (auto dest: complete_steps_le chart_le_length)
      then have "(complete_step T n)\<^sup>*\<^sup>* ch1 ch'"
        using 1(1)[OF True ns[symmetric] st c] 1(4) r by simp
      with s1 show ?thesis by simp
    next
      case nf: False
      then have st: "st \<noteq> Complete" using ns by (simp add: finished_iff[of _ T])
      from 1(5) True nf have r: "earley_final T n (Suc k) ch = Inr ch'"
        by (subst (asm) earley_final_unfold) simp
      show ?thesis
        using st 1(2)[OF True ns[symmetric] _ 1(4) r] 1(3)[OF True ns[symmetric] _ 1(4) r]
        by (cases st) auto
    qed
  qed
qed


lemma chart_invD:
  "chart_inv ch \<Longrightarrow> i < length ch \<Longrightarrow> item \<in> set (ch ! i) \<Longrightarrow>
     start item \<le> i \<and> dot item \<le> length (rhs (rule item))"
  by (simp add: chart_inv_def)

definition key_error :: "Grammar \<Rightarrow> error \<Rightarrow> bool" where
  "key_error g e \<longleftrightarrow> (\<exists>symb. e = KeyError symb \<and> map_of (rules g) symb = None)"

lemma dispatch_error:
  assumes "chart_inv ch" "i + 1 < length ch" "item \<in> set (ch ! i)"
    "dispatch g T word i item ch = Inl e"
  shows "key_error g e"
proof -
  obtain st sy where ns: "next_symb item T = (st, sy)" by (cases "next_symb item T")
  have "start item < length ch"
    using chart_invD[OF assms(1) _ assms(3)] assms(2) by simp
  then show ?thesis
    using assms(2,4) ns
    by (cases st; cases sy)
       (auto simp: dispatch_def complete_def predict_def scan_def key_error_def
             split: if_splits option.splits)
qed

lemma earley_items_error:
  assumes "chart_inv ch" "i + 1 < length ch" "earley_items g T word i k ch = Inl e"
  shows "key_error g e"
  using assms
proof (induction g T word i k ch rule: earley_items.induct)
  case (1 g T word i k ch)
  from 1(4) have k: "k < length (ch ! i)"
    by (subst (asm) earley_items.simps) (auto split: if_splits)
  have mem: "ch ! i ! k \<in> set (ch ! i)" using k by simp
  show ?case
  proof (cases "dispatch g T word i (ch ! i ! k) ch")
    case (Inl e')
    with 1(4) k have "e' = e" by (subst (asm) earley_items.simps) simp
    with Inl show ?thesis using dispatch_error[OF 1(2,3) mem] by simp
  next
    case (Inr ch1)
    with 1(4) k have r: "earley_items g T word i (Suc k) ch1 = Inl e"
      by (subst (asm) earley_items.simps) simp
    have s: "(step g T i)\<^sup>*\<^sup>* ch ch1"
      using 1(3) mem Inr by (intro dispatch_steps[where item = "ch ! i ! k"]) auto
    have "chart_inv ch1" using s 1(2) by (rule steps_inv)
    moreover have "length ch1 = length ch" using s by (auto dest: steps_le chart_le_length)
    ultimately show ?thesis using 1(1)[OF k Inr] 1(3) r by simp
  qed
qed

lemma earley_positions_error:
  assumes "chart_inv ch" "i + length w < length ch" "earley_positions g T w i ch = Inl e"
  shows "key_error g e"
  using assms
proof (induction w arbitrary: i ch)
  case Nil
  then show ?case by simp
next
  case (Cons word w)
  have i: "i < length ch" "i + 1 < length ch" using Cons.prems(2) by auto
  show ?case
  proof (cases "earley_items g T word i 0 ch")
    case (Inl e')
    with Cons.prems(3) i have "e' = e" by simp
    with Inl show ?thesis using earley_items_error[OF Cons.prems(1) i(2)] by simp
  next
    case (Inr ch1)
    with Cons.prems(3) i have r: "earley_positions g T w (Suc i) ch1 = Inl e" by simp
    have s: "(step g T i)\<^sup>*\<^sup>* ch ch1" using i(1) Inr by (rule earley_items_steps)
    have "chart_inv ch1" using s Cons.prems(1) by (rule steps_inv)
    moreover have "length ch1 = length ch" using s by (auto dest: steps_le chart_le_length)
    ultimately show ?thesis using Cons.IH[OF _ _ r] Cons.prems(2) by simp
  qed
qed

lemma complete_steps_inv:
  "(complete_step T n)\<^sup>*\<^sup>* ch ch' \<Longrightarrow> chart_inv ch \<Longrightarrow> chart_inv ch'"
proof (induction rule: rtranclp_induct)
  case base
  then show ?case by simp
next
  case (step y z)
  then have "step \<lparr>rules = [], start_rule = []\<rparr> T n y z" by (simp add: step_def)
  then show ?case using step by (auto dest: step_chart_inv)
qed

lemma earley_final_no_error:
  assumes "chart_inv ch" "n < length ch"
  shows "\<exists>ch'. earley_final T n k ch = Inr ch'"
  using assms
proof (induction T n k ch rule: earley_final.induct)
  case (1 T n k ch)
  show ?case
  proof (cases "k < length (ch ! n)")
    case False
    then show ?thesis by (subst earley_final_unfold) simp
  next
    case True
    obtain st sy where ns: "next_symb (ch ! n ! k) T = (st, sy)"
      by (cases "next_symb (ch ! n ! k) T")
    have mem: "ch ! n ! k \<in> set (ch ! n)" using True by simp
    show ?thesis
    proof (cases "finished (ch ! n ! k)")
      case fin: True
      then have st: "st = Complete" using ns by (simp add: finished_iff[of _ T])
      have "start (ch ! n ! k) < length ch"
        using chart_invD[OF 1(4,5) mem] 1(5) by simp
      then obtain ch1 where c: "complete ch n (ch ! n ! k) T = Inr ch1"
        by (simp add: complete_def)
      have s: "(complete_step T n)\<^sup>*\<^sup>* ch ch1"
        using 1(5) mem fin c by (rule complete_steps)
      have "chart_inv ch1" using s 1(4) by (rule complete_steps_inv)
      moreover have "length ch1 = length ch" using s by (auto dest: complete_steps_le chart_le_length)
      ultimately have "\<exists>ch'. earley_final T n (Suc k) ch1 = Inr ch'"
        using 1(1)[OF True ns[symmetric] st c] 1(5) by simp
      then show ?thesis using True fin c by (subst earley_final_unfold) simp
    next
      case nf: False
      then have st: "st \<noteq> Complete" using ns by (simp add: finished_iff[of _ T])
      have "\<exists>ch'. earley_final T n (Suc k) ch = Inr ch'"
        using st 1(2)[OF True ns[symmetric] _ 1(4,5)] 1(3)[OF True ns[symmetric] _ 1(4,5)]
        by (cases st) auto
      then show ?thesis using True nf by (subst earley_final_unfold) simp
    qed
  qed
qed


lemma length_initial_chart: "length (initial_chart rs w) = length w + 1"
  by (simp add: initial_chart_def)

lemma chart_inv_initial: "chart_inv (initial_chart rs w)"
  by (auto simp: chart_inv_def initial_chart_def nth_Cons split: nat.splits)

lemma earley_unfold:
  "earley g T w =
     (case map_of (rules g) (start_rule g) of
        None \<Rightarrow> Inl (KeyError (start_rule g))
      | Some rs \<Rightarrow>
          (case earley_positions g T w 0 (initial_chart rs w) of
             Inl e \<Rightarrow> Inl e
           | Inr ch \<Rightarrow>
               (if ch = [] then Inl IndexError
                else earley_final T (length ch - 1) 0 ch)))"
  by (simp add: earley_def)

lemma earley_Inr:
  assumes "earley g T w = Inr ch'"
  obtains rs ch where "map_of (rules g) (start_rule g) = Some rs"
    "earley_positions g T w 0 (initial_chart rs w) = Inr ch"
    "(any_step g T (length w))\<^sup>*\<^sup>* (initial_chart rs w) ch"
    "length ch = length w + 1" "chart_inv ch"
    "earley_final T (length w) 0 ch = Inr ch'"
    "(complete_step T (length w))\<^sup>*\<^sup>* ch ch'"
proof -
  from assms obtain rs ch where rs: "map_of (rules g) (start_rule g) = Some rs"
    and p: "earley_positions g T w 0 (initial_chart rs w) = Inr ch"
    and f: "ch \<noteq> []" "earley_final T (length ch - 1) 0 ch = Inr ch'"
    by (auto simp: earley_unfold split: option.splits sum.splits if_splits)
  have s: "(any_step g T (length w))\<^sup>*\<^sup>* (initial_chart rs w) ch"
    using p by (rule earley_positions_steps) simp
  then have len: "length ch = length w + 1"
    by (auto dest!: any_steps_le chart_le_length simp: length_initial_chart)
  have inv: "chart_inv ch" using s chart_inv_initial by (rule any_steps_inv)
  have f': "earley_final T (length w) 0 ch = Inr ch'" using f len by simp
  have "(complete_step T (length w))\<^sup>*\<^sup>* ch ch'"
    using f' len by (intro earley_final_steps[of _ _ _ 0]) auto
  with rs p s len inv f' show ?thesis by (rule that)
qed

lemma earley_error:
  assumes "earley g T w = Inl e"
  shows "key_error g e"
proof (cases "map_of (rules g) (start_rule g)")
  case None
  with assms show ?thesis by (auto simp: earley_unfold key_error_def)
next
  case (Some rs)
  show ?thesis
  proof (cases "earley_positions g T w 0 (initial_chart rs w)")
    case (Inl e')
    with assms Some have "e' = e" by (simp add: earley_unfold)
    with Inl have "earley_positions g T w 0 (initial_chart rs w) = Inl e" by simp
    then show ?thesis
      by (rule earley_positions_error[OF chart_inv_initial, rotated])
         (simp add: length_initial_chart)
  next
    case (Inr ch)
    have s: "(any_step g T (length w))\<^sup>*\<^sup>* (initial_chart rs w) ch"
      using Inr by (rule earley_positions_steps) simp
    then have len: "length ch = length w + 1"
      by (auto dest!: any_steps_le chart_le_length simp: length_initial_chart)
    have inv: "chart_inv ch" using s chart_inv_initial by (rule any_steps_inv)
    obtain ch' where "earley_final T (length w) 0 ch = Inr ch'"
      using earley_final_no_error[OF inv, of "length w" T 0] len by auto
    moreover have "ch \<noteq> []" "length ch - 1 = length w" using len by auto
    ultimately show ?thesis using assms Some Inr by (simp add: earley_unfold)
  qed
qed

section \<open>The completion transition\<close>

lemma complete_loop_le: "chart_le ch (complete_loop T item src dst k ch)"
proof (induction T item src dst k ch rule: complete_loop.induct)
  case (1 T item src dst k ch)
  show ?case
  proof (cases "src < length ch \<and> k < length (ch ! src)")
    case False
    then show ?thesis by (subst complete_loop_unfold) (auto simp: chart_le_refl)
  next
    case True
    show ?thesis
    proof (cases "expects T item (ch ! src ! k)")
      case False
      with True 1(2) show ?thesis by (subst complete_loop_unfold) simp
    next
      case ex: True
      have "chart_le (put ch dst (advance item (ch ! src ! k)))
              (complete_loop T item src dst (Suc k) (put ch dst (advance item (ch ! src ! k))))"
        using 1(1)[unfolded put_def[symmetric], OF True refl ex] .
      then have "chart_le ch
              (complete_loop T item src dst (Suc k) (put ch dst (advance item (ch ! src ! k))))"
        using chart_le_put chart_le_trans by blast
      then show ?thesis using True ex by (subst complete_loop_unfold) simp
    qed
  qed
qed

lemma complete_loop_fold:
  assumes "src \<noteq> dst" "src < length ch" "dst < length ch"
  shows "complete_loop T item src dst k ch =
           ch[dst := ItemSet_extend (ch ! dst)
                       (map (advance item) (filter (expects T item) (drop k (ch ! src))))]"
  using assms
proof (induction T item src dst k ch rule: complete_loop.induct)
  case (1 T item src dst k ch)
  show ?case
  proof (cases "k < length (ch ! src)")
    case False
    then show ?thesis using 1(4) by (subst complete_loop_unfold) simp
  next
    case True
    then have d: "drop k (ch ! src) = ch ! src ! k # drop (Suc k) (ch ! src)"
      by (simp add: Cons_nth_drop_Suc)
    have T': "src < length ch \<and> k < length (ch ! src)" using True 1(4) by simp
    show ?thesis
    proof (cases "expects T item (ch ! src ! k)")
      case False
      with T' 1(2)[OF T' refl False] 1(3,4,5) d show ?thesis
        by (subst complete_loop_unfold) simp
    next
      case ex: True
      let ?ch' = "put ch dst (advance item (ch ! src ! k))"
      have "complete_loop T item src dst (Suc k) ?ch' =
              ?ch'[dst := ItemSet_extend (?ch' ! dst)
                       (map (advance item) (filter (expects T item) (drop (Suc k) (?ch' ! src))))]"
        using 1(1)[unfolded put_def[symmetric], OF T' refl ex] 1(3,4,5) by simp
      moreover have "?ch' ! src = ch ! src" using 1(3) by (simp add: put_nth_other)
      ultimately show ?thesis
        using T' ex d 1(5) by (subst complete_loop_unfold) (simp add: put_def)
    qed
  qed
qed

lemma item_eq_key: "item_eq x v \<longleftrightarrow> key x = key v"
  by (auto simp: item_eq_def key_def)

lemma put_has: "j < length ch \<Longrightarrow> \<exists>x\<in>set (put ch j v ! j). item_eq x v"
  by (auto simp: put_nth_same item_eq_key)

lemma complete_loop_closed:
  assumes "dst < length ch" "ch' = complete_loop T item src dst k ch"
    "k \<le> m" "m < length (ch' ! src)" "src < length ch" "expects T item (ch' ! src ! m)"
  shows "\<exists>x\<in>set (ch' ! dst). item_eq x (advance item (ch' ! src ! m))"
  using assms
proof (induction T item src dst k ch rule: complete_loop.induct)
  case (1 T item src dst k ch)
  show ?case
  proof (cases "k < length (ch ! src)")
    case False
    then have "ch' = ch" using 1(4) by (subst (asm) complete_loop_unfold) simp
    with False 1(5,6) show ?thesis by simp
  next
    case True
    have T': "src < length ch \<and> k < length (ch ! src)" using True 1(7) by simp
    let ?old = "ch ! src ! k"
    let ?ch1 = "if expects T item ?old then put ch dst (advance item ?old) else ch"
    have ch': "ch' = complete_loop T item src dst (Suc k) ?ch1"
      using 1(4) T' by (subst (asm) complete_loop_unfold) simp
    have len1: "length ?ch1 = length ch" by simp
    have le1: "chart_le ch ?ch1" by (simp add: chart_le_put chart_le_refl)
    have le2: "chart_le ?ch1 ch'" unfolding ch' by (rule complete_loop_le)
    show ?thesis
    proof (cases "m = k")
      case False
      then have m: "Suc k \<le> m" using 1(5) by simp
      show ?thesis
      proof (cases "expects T item ?old")
        case True
        with 1(1)[unfolded put_def[symmetric], OF T' refl True _ _ m 1(6) _ 1(8)] 1(3,7) ch'
        show ?thesis by simp
      next
        case False
        with 1(2)[OF T' refl False 1(3) _ m 1(6,7,8)] ch'
        show ?thesis by simp
      qed
    next
      case mk: True
      have same: "ch' ! src ! m = ?old"
        using mk chart_le_nth[OF chart_le_trans[OF le1 le2] 1(7) True] by simp
      then have ex: "expects T item ?old" using 1(8) by simp
      then obtain x where "x \<in> set (?ch1 ! dst)" "item_eq x (advance item ?old)"
        using put_has[OF 1(3)] by auto
      moreover have "x \<in> set (ch' ! dst)" if "x \<in> set (?ch1 ! dst)" for x
        using chart_le_mem[OF le2 _ that] 1(3) len1 by simp
      ultimately show ?thesis using same by auto
    qed
  qed
qed

lemma complete_loop_other: "j \<noteq> dst \<Longrightarrow> complete_loop T item src dst k ch ! j = ch ! j"
proof (induction T item src dst k ch rule: complete_loop.induct)
  case (1 T item src dst k ch)
  show ?case
  proof (cases "src < length ch \<and> k < length (ch ! src)")
    case False
    then show ?thesis by (subst complete_loop_unfold) auto
  next
    case True
    show ?thesis
    proof (cases "expects T item (ch ! src ! k)")
      case False
      with True 1(2,3) show ?thesis by (subst complete_loop_unfold) simp
    next
      case ex: True
      with True 1(1)[unfolded put_def[symmetric], OF True refl ex 1(3)] 1(3)
      show ?thesis by (subst complete_loop_unfold) (simp add: put_nth_other)
    qed
  qed
qed

lemma put_new: "x \<in> set (put ch j v ! j) \<Longrightarrow> x \<in> set (ch ! j) \<or> x = v"
  by (cases "j < length ch") (auto simp: put_def append_cases list_update_beyond split: if_splits)

lemma complete_loop_new:
  assumes "dst < length ch" "src < length ch"
    "x \<in> set (complete_loop T item src dst k ch ! dst)" "x \<notin> set (ch ! dst)"
  shows "\<exists>old\<in>set (complete_loop T item src dst k ch ! src). expects T item old \<and> x = advance item old"
  using assms
proof (induction T item src dst k ch rule: complete_loop.induct)
  case (1 T item src dst k ch)
  show ?case
  proof (cases "k < length (ch ! src)")
    case False
    with 1(5,6) show ?thesis by (subst (asm) complete_loop_unfold) simp
  next
    case True
    have T': "src < length ch \<and> k < length (ch ! src)" using True 1(4) by simp
    let ?old = "ch ! src ! k"
    show ?thesis
    proof (cases "expects T item ?old")
      case False
      have "complete_loop T item src dst k ch = complete_loop T item src dst (Suc k) ch"
        using T' False by (subst complete_loop_unfold) simp
      with 1(2)[OF T' refl False 1(3,4)] 1(5,6) show ?thesis by simp
    next
      case ex: True
      let ?ch1 = "put ch dst (advance item ?old)"
      have eq: "complete_loop T item src dst k ch = complete_loop T item src dst (Suc k) ?ch1"
        using T' ex by (subst complete_loop_unfold) simp
      have le2: "chart_le ?ch1 (complete_loop T item src dst (Suc k) ?ch1)"
        by (rule complete_loop_le)
      show ?thesis
      proof (cases "x \<in> set (?ch1 ! dst)")
        case False
        with 1(1)[unfolded put_def[symmetric], OF T' refl ex] 1(3,4,5) eq show ?thesis by simp
      next
        case True
        then have x: "x = advance item ?old" using 1(6) put_new by blast
        have "?old \<in> set (ch ! src)" using T' by simp
        then have "?old \<in> set (?ch1 ! src)" using 1(4) by (simp add: put_mem)
        then have "?old \<in> set (complete_loop T item src dst (Suc k) ?ch1 ! src)"
          using chart_le_mem[OF le2] 1(4) by simp
        with x ex eq show ?thesis by auto
      qed
    qed
  qed
qed


text \<open>
  C2. \<open>complete\<close>, called with an item at position \<open>i\<close>, leaves the chart's other collections
  alone and extends the collection at \<open>i\<close>: for every item of the collection at
  \<open>item.start\<close> whose symbol after the dot is the left-hand symbol of \<open>item\<close>, an item with that
  item's rule and origin and its dot moved by one is in the collection at \<open>i\<close> afterwards
  (\<open>append\<close> skips it when an equal one is there); every item that was added is that item's
  rule, origin, dot plus one, and back-pointers with \<open>item\<close> appended at the end. When
  \<open>item.start\<close> is another position than \<open>i\<close> the result is exactly \<open>extend\<close> over the mapped,
  filtered source collection.
\<close>

theorem complete_inserts:
  assumes "complete ch i item T = Inr ch'" "i < length ch"
  shows "(start item \<noteq> i \<longrightarrow>
            ch' = ch[i := ItemSet_extend (ch ! i)
                     (map (advance item) (filter (expects T item) (ch ! start item)))]) \<and>
         (\<forall>old_item\<in>set (ch' ! start item).
            snd (next_symb old_item T) = Some (lhs (rule item)) \<longrightarrow>
            (\<exists>x\<in>set (ch' ! i).
               rule x = rule old_item \<and> start x = start old_item \<and> dot x = dot old_item + 1)) \<and>
         (\<forall>x\<in>set (ch' ! i). x \<notin> set (ch ! i) \<longrightarrow>
            (\<exists>old_item\<in>set (ch' ! start item).
               snd (next_symb old_item T) = Some (lhs (rule item)) \<and>
               x = EarleyItem (rule old_item) (start old_item) (dot old_item + 1)
                     (prev old_item @ [item]))) \<and>
         length ch' = length ch \<and> prefix (ch ! i) (ch' ! i) \<and>
         (\<forall>j. j \<noteq> i \<longrightarrow> ch' ! j = ch ! j)"
proof -
  from assms(1) have src: "start item < length ch"
    and ch': "ch' = complete_loop T item (start item) i 0 ch"
    by (auto simp: complete_def split: if_splits)
  have le: "chart_le ch ch'" unfolding ch' by (rule complete_loop_le)
  have a: "start item \<noteq> i \<longrightarrow>
            ch' = ch[i := ItemSet_extend (ch ! i)
                     (map (advance item) (filter (expects T item) (ch ! start item)))]"
    using complete_loop_fold[OF _ src assms(2), of T item 0] ch' by simp
  have b: "\<exists>x\<in>set (ch' ! i).
               rule x = rule old \<and> start x = start old \<and> dot x = dot old + 1"
    if old: "old \<in> set (ch' ! start item)" and ex: "snd (next_symb old T) = Some (lhs (rule item))"
    for old
  proof -
    from old obtain m where m: "m < length (ch' ! start item)" "ch' ! start item ! m = old"
      by (auto simp: in_set_conv_nth)
    have "expects T item (ch' ! start item ! m)" using ex m by (simp add: expects_def)
    from complete_loop_closed[OF assms(2) ch' _ m(1) src this] m(2)
    show ?thesis by (auto simp: item_eq_def advance_def)
  qed
  have c: "\<exists>old\<in>set (ch' ! start item).
               snd (next_symb old T) = Some (lhs (rule item)) \<and>
               x = EarleyItem (rule old) (start old) (dot old + 1) (prev old @ [item])"
    if "x \<in> set (ch' ! i)" "x \<notin> set (ch ! i)" for x
    using complete_loop_new[OF assms(2) src, of x T item 0] that ch'
    by (auto simp: expects_def advance_def)
  have d: "prefix (ch ! i) (ch' ! i)" using le assms(2) by (simp add: chart_le_def)
  have e: "\<forall>j. j \<noteq> i \<longrightarrow> ch' ! j = ch ! j"
    unfolding ch' by (simp add: complete_loop_other)
  show ?thesis
    using a b c d e chart_le_length[OF le] by blast
qed

theorem complete_inserts_witness:
  "complete [[EarleyItem \<lparr>rid = 0, lhs = ''S'', rhs = [''A'']\<rparr> 0 0 []], [EarleyItem \<lparr>rid = 1, lhs = ''A'', rhs = [''a'']\<rparr> 0 1 []]] 1
      (EarleyItem \<lparr>rid = 1, lhs = ''A'', rhs = [''a'']\<rparr> 0 1 []) {''a''}
     = Inr [[EarleyItem \<lparr>rid = 0, lhs = ''S'', rhs = [''A'']\<rparr> 0 0 []],
            [EarleyItem \<lparr>rid = 1, lhs = ''A'', rhs = [''a'']\<rparr> 0 1 [],
             EarleyItem \<lparr>rid = 0, lhs = ''S'', rhs = [''A'']\<rparr> 0 1 [EarleyItem \<lparr>rid = 1, lhs = ''A'', rhs = [''a'']\<rparr> 0 1 []]]] \<and>
   [[EarleyItem \<lparr>rid = 0, lhs = ''S'', rhs = [''A'']\<rparr> 0 0 []],
    [EarleyItem \<lparr>rid = 1, lhs = ''A'', rhs = [''a'']\<rparr> 0 1 [],
     EarleyItem \<lparr>rid = 0, lhs = ''S'', rhs = [''A'']\<rparr> 0 1 [EarleyItem \<lparr>rid = 1, lhs = ''A'', rhs = [''a'']\<rparr> 0 1 []]]]
     = [[EarleyItem \<lparr>rid = 0, lhs = ''S'', rhs = [''A'']\<rparr> 0 0 []], [EarleyItem \<lparr>rid = 1, lhs = ''A'', rhs = [''a'']\<rparr> 0 1 []]]
         [1 := ItemSet_extend [EarleyItem \<lparr>rid = 1, lhs = ''A'', rhs = [''a'']\<rparr> 0 1 []]
            (map (advance (EarleyItem \<lparr>rid = 1, lhs = ''A'', rhs = [''a'']\<rparr> 0 1 []))
               (filter (expects {''a''} (EarleyItem \<lparr>rid = 1, lhs = ''A'', rhs = [''a'']\<rparr> 0 1 []))
                  [EarleyItem \<lparr>rid = 0, lhs = ''S'', rhs = [''A'']\<rparr> 0 0 []]))]"
proof -
  have e: "complete [[EarleyItem \<lparr>rid = 0, lhs = ''S'', rhs = [''A'']\<rparr> 0 0 []], [EarleyItem \<lparr>rid = 1, lhs = ''A'', rhs = [''a'']\<rparr> 0 1 []]] 1
      (EarleyItem \<lparr>rid = 1, lhs = ''A'', rhs = [''a'']\<rparr> 0 1 []) {''a''}
     = Inr [[EarleyItem \<lparr>rid = 0, lhs = ''S'', rhs = [''A'']\<rparr> 0 0 []],
            [EarleyItem \<lparr>rid = 1, lhs = ''A'', rhs = [''a'']\<rparr> 0 1 [],
             EarleyItem \<lparr>rid = 0, lhs = ''S'', rhs = [''A'']\<rparr> 0 1 [EarleyItem \<lparr>rid = 1, lhs = ''A'', rhs = [''a'']\<rparr> 0 1 []]]]"
    by code_simp
  show ?thesis
    using complete_inserts[OF e] e by simp
qed

section \<open>Shape of the chart, bounds of the items, indexing\<close>

lemma predict_le: "predict g ch symb i = Inr ch' \<Longrightarrow> chart_le ch ch'"
proof (cases "i < length ch")
  case True
  assume "predict g ch symb i = Inr ch'"
  then obtain rs where rs: "map_of (rules g) symb = Some rs"
    and ch': "ch' = ch[i := ItemSet_extend (ch ! i) (map (\<lambda>r. EarleyItem r i 0 []) rs)]"
    by (auto simp: predict_def split: option.splits)
  have "(predict_step g i)\<^sup>*\<^sup>* ch ch'"
    unfolding ch' using True lookup_grammar_rules[OF rs] by (rule extend_steps)
  then show ?thesis
    by (rule steps_chart_le[rotated]) (auto simp: chart_le_put elim: predict_step.cases)
next
  case False
  assume "predict g ch symb i = Inr ch'"
  with False show ?thesis
    by (auto simp: predict_def list_update_beyond chart_le_refl split: option.splits)
qed

lemma scan_le: "scan ch item symb word i = Inr ch' \<Longrightarrow> chart_le ch ch'"
  using chart_le_put[of ch "i + 1"]
  by (auto simp: scan_def chart_le_refl put_def split: if_splits)

lemma complete_le: "complete ch i item T = Inr ch' \<Longrightarrow> chart_le ch ch'"
  by (auto simp: complete_def complete_loop_le split: if_splits)


text \<open>
  C7. For every grammar and sentence, a chart returned by \<open>earley\<close> has \<open>len(sentence) + 1\<close>
  collections, and each of them extends the collection the chart started with. Each of the
  three transitions leaves the number of collections unchanged and every collection an
  initial segment of what it becomes: items are added at the end, never removed or changed.
\<close>

theorem chart_shape:
  "(earley g T w = Inr ch \<longrightarrow>
      length ch = length w + 1 \<and>
      (\<exists>rs. map_of (rules g) (start_rule g) = Some rs \<and> chart_le (initial_chart rs w) ch)) \<and>
   (predict g c symb i = Inr c' \<longrightarrow> chart_le c c') \<and>
   (scan c item symb word i = Inr c' \<longrightarrow> chart_le c c') \<and>
   (complete c i item T = Inr c' \<longrightarrow> chart_le c c')"
proof -
  have "length ch = length w + 1 \<and>
      (\<exists>rs. map_of (rules g) (start_rule g) = Some rs \<and> chart_le (initial_chart rs w) ch)"
    if e: "earley g T w = Inr ch"
  proof -
    from e obtain rs c0 where rs: "map_of (rules g) (start_rule g) = Some rs"
      and s1: "(any_step g T (length w))\<^sup>*\<^sup>* (initial_chart rs w) c0"
      and len: "length c0 = length w + 1"
      and s2: "(complete_step T (length w))\<^sup>*\<^sup>* c0 ch"
      by (rule earley_Inr)
    have le: "chart_le (initial_chart rs w) ch"
      using any_steps_le[OF s1] complete_steps_le[OF s2] by (rule chart_le_trans)
    then have "length ch = length w + 1"
      by (simp add: chart_le_length length_initial_chart)
    with rs le show ?thesis by blast
  qed
  moreover have "predict g c symb i = Inr c' \<longrightarrow> chart_le c c'"
    using predict_le by blast
  moreover have "scan c item symb word i = Inr c' \<longrightarrow> chart_le c c'"
    using scan_le by blast
  moreover have "complete c i item T = Inr c' \<longrightarrow> chart_le c c'"
    using complete_le by blast
  ultimately show ?thesis by simp
qed


theorem chart_shape_witness:
  "earley \<lparr>rules = [(''S'', [\<lparr>rid = 0, lhs = ''S'', rhs = [''a'']\<rparr>])], start_rule = ''S''\<rparr> {''a''} [''a'']
     = Inr [[EarleyItem \<lparr>rid = 0, lhs = ''S'', rhs = [''a'']\<rparr> 0 0 []], [EarleyItem \<lparr>rid = 0, lhs = ''S'', rhs = [''a'']\<rparr> 0 1 []]] \<and>
   length [[EarleyItem \<lparr>rid = 0, lhs = ''S'', rhs = [''a'']\<rparr> 0 0 []], [EarleyItem \<lparr>rid = 0, lhs = ''S'', rhs = [''a'']\<rparr> 0 1 []]] = length [''a''] + 1 \<and>
   (\<exists>rs. map_of (rules \<lparr>rules = [(''S'', [\<lparr>rid = 0, lhs = ''S'', rhs = [''a'']\<rparr>])], start_rule = ''S''\<rparr>) (start_rule \<lparr>rules = [(''S'', [\<lparr>rid = 0, lhs = ''S'', rhs = [''a'']\<rparr>])], start_rule = ''S''\<rparr>) = Some rs \<and>
      chart_le (initial_chart rs [''a'']) [[EarleyItem \<lparr>rid = 0, lhs = ''S'', rhs = [''a'']\<rparr> 0 0 []], [EarleyItem \<lparr>rid = 0, lhs = ''S'', rhs = [''a'']\<rparr> 0 1 []]])"
proof -
  have e: "earley \<lparr>rules = [(''S'', [\<lparr>rid = 0, lhs = ''S'', rhs = [''a'']\<rparr>])], start_rule = ''S''\<rparr> {''a''} [''a'']
     = Inr [[EarleyItem \<lparr>rid = 0, lhs = ''S'', rhs = [''a'']\<rparr> 0 0 []], [EarleyItem \<lparr>rid = 0, lhs = ''S'', rhs = [''a'']\<rparr> 0 1 []]]"
    by code_simp
  show ?thesis
    using chart_shape[where g = "\<lparr>rules = [(''S'', [\<lparr>rid = 0, lhs = ''S'', rhs = [''a'']\<rparr>])], start_rule = ''S''\<rparr>" and T = "{''a''}" and w = "[''a'']"
        and ch = "[[EarleyItem \<lparr>rid = 0, lhs = ''S'', rhs = [''a'']\<rparr> 0 0 []], [EarleyItem \<lparr>rid = 0, lhs = ''S'', rhs = [''a'']\<rparr> 0 1 []]]"] e
    by simp
qed

lemma dispatch_inv:
  assumes "chart_inv c" "i < length c" "item \<in> set (c ! i)" "dispatch g T word i item c = Inr c'"
  shows "chart_inv c'"
  using dispatch_steps[OF assms(2,3,4)] assms(1) by (rule steps_inv)


text \<open>
  C9. Every item of a chart returned by \<open>earley\<close> at position \<open>i\<close> has its origin at most \<open>i\<close>
  and its dot at most the length of its rule's right-hand side (both are natural numbers,
  so at least \<open>0\<close>). The bound holds for the initial chart and is kept by the body of the
  main loop and by each completion of the final sweep, so it holds for every item ever
  inserted.
\<close>

theorem item_bounds:
  "(earley g T w = Inr ch \<longrightarrow>
      (\<forall>i<length ch. \<forall>item\<in>set (ch ! i).
         start item \<le> i \<and> dot item \<le> length (rhs (rule item)))) \<and>
   chart_inv (initial_chart rs w) \<and>
   (chart_inv c \<and> i < length c \<and> item \<in> set (c ! i) \<and> dispatch g T word i item c = Inr c'
      \<longrightarrow> chart_inv c') \<and>
   (chart_inv c \<and> i < length c \<and> item \<in> set (c ! i) \<and> \<not> dot item < length (rhs (rule item)) \<and>
    complete c i item T = Inr c' \<longrightarrow> chart_inv c')"
proof -
  have a: "chart_inv ch" if e: "earley g T w = Inr ch"
  proof -
    from e obtain c0 where "chart_inv c0" "(complete_step T (length w))\<^sup>*\<^sup>* c0 ch"
      by (rule earley_Inr)
    then show ?thesis using complete_steps_inv by blast
  qed
  have b: "chart_inv c'"
    if "chart_inv c" "i < length c" "item \<in> set (c ! i)" "\<not> dot item < length (rhs (rule item))"
       "complete c i item T = Inr c'"
  proof -
    have "finished item" using that(4) by (simp add: finished_def)
    with that have "(complete_step T i)\<^sup>*\<^sup>* c c'" by (intro complete_steps) auto
    with that(1) show ?thesis using complete_steps_inv by blast
  qed
  have a': "earley g T w = Inr ch \<longrightarrow>
      (\<forall>i<length ch. \<forall>item\<in>set (ch ! i).
         start item \<le> i \<and> dot item \<le> length (rhs (rule item)))"
    using a by (simp add: chart_inv_def)
  have c: "chart_inv c \<and> i < length c \<and> item \<in> set (c ! i) \<and> dispatch g T word i item c = Inr c'
      \<longrightarrow> chart_inv c'"
    using dispatch_inv by blast
  show ?thesis
    using a' b c chart_inv_initial by simp
qed


theorem item_bounds_witness:
  "earley \<lparr>rules = [(''S'', [\<lparr>rid = 0, lhs = ''S'', rhs = [''a'']\<rparr>])], start_rule = ''S''\<rparr> {''a''} [''a'']
     = Inr [[EarleyItem \<lparr>rid = 0, lhs = ''S'', rhs = [''a'']\<rparr> 0 0 []], [EarleyItem \<lparr>rid = 0, lhs = ''S'', rhs = [''a'']\<rparr> 0 1 []]] \<and>
   start (EarleyItem \<lparr>rid = 0, lhs = ''S'', rhs = [''a'']\<rparr> 0 1 []) \<le> 1 \<and>
   dot (EarleyItem \<lparr>rid = 0, lhs = ''S'', rhs = [''a'']\<rparr> 0 1 []) \<le> length (rhs (rule (EarleyItem \<lparr>rid = 0, lhs = ''S'', rhs = [''a'']\<rparr> 0 1 [])))"
proof -
  have e: "earley \<lparr>rules = [(''S'', [\<lparr>rid = 0, lhs = ''S'', rhs = [''a'']\<rparr>])], start_rule = ''S''\<rparr> {''a''} [''a'']
     = Inr [[EarleyItem \<lparr>rid = 0, lhs = ''S'', rhs = [''a'']\<rparr> 0 0 []], [EarleyItem \<lparr>rid = 0, lhs = ''S'', rhs = [''a'']\<rparr> 0 1 []]]"
    by code_simp
  show ?thesis
    using item_bounds[where g = "\<lparr>rules = [(''S'', [\<lparr>rid = 0, lhs = ''S'', rhs = [''a'']\<rparr>])], start_rule = ''S''\<rparr>" and T = "{''a''}" and w = "[''a'']"
        and ch = "[[EarleyItem \<lparr>rid = 0, lhs = ''S'', rhs = [''a'']\<rparr> 0 0 []], [EarleyItem \<lparr>rid = 0, lhs = ''S'', rhs = [''a'']\<rparr> 0 1 []]]"] e
    by simp
qed

text \<open>
  C10. \<open>earley\<close> never raises \<^verbatim>\<open>IndexError\<close>: on a chart whose items have their origin at most
  their position, the body of the main loop at a position \<open>i\<close> with \<open>i + 1\<close> in range (a position
  paired with an input word) does not index out of range, and neither does a completion at
  a position in range, which is all the final sweep does.
\<close>

theorem no_index_error:
  "earley g T w \<noteq> Inl IndexError \<and>
   (chart_inv c \<and> i + 1 < length c \<and> item \<in> set (c ! i)
      \<longrightarrow> dispatch g T word i item c \<noteq> Inl IndexError) \<and>
   (chart_inv c \<and> i < length c \<and> item \<in> set (c ! i)
      \<longrightarrow> complete c i item T \<noteq> Inl IndexError)"
proof -
  have a: "earley g T w \<noteq> Inl IndexError"
    using earley_error[of g T w IndexError] by (auto simp: key_error_def)
  have b: "dispatch g T word i item c \<noteq> Inl IndexError"
    if "chart_inv c" "i + 1 < length c" "item \<in> set (c ! i)"
    using dispatch_error[OF that, of g T word IndexError] by (auto simp: key_error_def)
  have c: "complete c i item T \<noteq> Inl IndexError"
    if "chart_inv c" "i < length c" "item \<in> set (c ! i)"
    using chart_invD[OF that] that(2) by (simp add: complete_def)
  show ?thesis using a b c by simp
qed

theorem no_index_error_witness:
  "earley \<lparr>rules = [(''S'', [\<lparr>rid = 0, lhs = ''S'', rhs = [''a'']\<rparr>])], start_rule = ''S''\<rparr> {''a''} [''a''] \<noteq> Inl IndexError \<and>
   dispatch \<lparr>rules = [(''S'', [\<lparr>rid = 0, lhs = ''S'', rhs = [''a'']\<rparr>])], start_rule = ''S''\<rparr> {''a''} ''a'' 0 (EarleyItem \<lparr>rid = 0, lhs = ''S'', rhs = [''a'']\<rparr> 0 0 [])
     [[EarleyItem \<lparr>rid = 0, lhs = ''S'', rhs = [''a'']\<rparr> 0 0 []], []] \<noteq> Inl IndexError"
proof -
  have inv: "chart_inv [[EarleyItem \<lparr>rid = 0, lhs = ''S'', rhs = [''a'']\<rparr> 0 0 []], []]"
    using chart_inv_initial[of "[\<lparr>rid = 0, lhs = ''S'', rhs = [''a'']\<rparr>]" "[''a'']"] by (simp add: initial_chart_def)
  show ?thesis
    using no_index_error[where g = "\<lparr>rules = [(''S'', [\<lparr>rid = 0, lhs = ''S'', rhs = [''a'']\<rparr>])], start_rule = ''S''\<rparr>" and T = "{''a''}" and w = "[''a'']"
        and c = "[[EarleyItem \<lparr>rid = 0, lhs = ''S'', rhs = [''a'']\<rparr> 0 0 []], []]" and i = 0 and item = "EarleyItem \<lparr>rid = 0, lhs = ''S'', rhs = [''a'']\<rparr> 0 0 []"
        and word = "''a''"] inv
    by simp
qed

section \<open>The acceptance check\<close>

lemma find_accepting:
  "find P xs = Some x \<Longrightarrow> x \<in> set xs \<and> P x"
  by (induction xs) (auto split: if_splits)

lemma earley_length: "earley g T w = Inr ch \<Longrightarrow> length ch = length w + 1"
proof -
  assume "earley g T w = Inr ch"
  then obtain c0 where "length c0 = length w + 1" "(complete_step T (length w))\<^sup>*\<^sup>* c0 ch"
    by (rule earley_Inr)
  then show ?thesis by (auto dest!: complete_steps_le chart_le_length)
qed

text \<open>
  C1. The acceptance check succeeds exactly when the chart has \<open>len(input) + 1\<close> collections
  and some item of the last collection has its dot at the end of its rule, origin \<open>0\<close> and
  the start symbol as left-hand side; the item it returns is such an item. In every other
  case (no such item, or a chart of another length) the check reports failure. A chart built
  by \<open>earley\<close> has the right length, so for it the check succeeds exactly when such an item
  exists.
\<close>

theorem acceptance_check:
  "(acceptance earley_set sentence s \<noteq> None \<longleftrightarrow>
      length earley_set = length sentence + 1 \<and>
      (\<exists>item\<in>set (last earley_set).
         dot item = length (rhs (rule item)) \<and> start item = 0 \<and> lhs (rule item) = s)) \<and>
   (\<forall>item. acceptance earley_set sentence s = Some item \<longrightarrow>
      item \<in> set (last earley_set) \<and>
      dot item = length (rhs (rule item)) \<and> start item = 0 \<and> lhs (rule item) = s) \<and>
   (earley g T sentence = Inr earley_set \<longrightarrow>
      (acceptance earley_set sentence s \<noteq> None \<longleftrightarrow>
         (\<exists>item\<in>set (last earley_set).
            dot item = length (rhs (rule item)) \<and> start item = 0 \<and> lhs (rule item) = s)))"
proof -
  have f: "(find (accepting s) xs \<noteq> None) = (\<exists>item\<in>set xs. accepting s item)" for xs
    by (auto simp: find_None_iff)
  have a: "acceptance earley_set sentence s \<noteq> None \<longleftrightarrow>
      length earley_set = length sentence + 1 \<and>
      (\<exists>item\<in>set (last earley_set).
         dot item = length (rhs (rule item)) \<and> start item = 0 \<and> lhs (rule item) = s)"
    using f by (auto simp: acceptance_def accepting_def)
  have b: "\<forall>item. acceptance earley_set sentence s = Some item \<longrightarrow>
      item \<in> set (last earley_set) \<and>
      dot item = length (rhs (rule item)) \<and> start item = 0 \<and> lhs (rule item) = s"
    by (auto simp: acceptance_def accepting_def dest!: find_accepting split: if_splits)
  have c: "earley g T sentence = Inr earley_set \<longrightarrow>
      (acceptance earley_set sentence s \<noteq> None \<longleftrightarrow>
         (\<exists>item\<in>set (last earley_set).
            dot item = length (rhs (rule item)) \<and> start item = 0 \<and> lhs (rule item) = s))"
    using a earley_length[of g T sentence earley_set] by simp
  show ?thesis using a b c by simp
qed

theorem acceptance_check_witness:
  "earley \<lparr>rules = [(''S'', [\<lparr>rid = 0, lhs = ''S'', rhs = [''a'']\<rparr>])], start_rule = ''S''\<rparr> {''a''} [''a'']
     = Inr [[EarleyItem \<lparr>rid = 0, lhs = ''S'', rhs = [''a'']\<rparr> 0 0 []], [EarleyItem \<lparr>rid = 0, lhs = ''S'', rhs = [''a'']\<rparr> 0 1 []]] \<and>
   acceptance [[EarleyItem \<lparr>rid = 0, lhs = ''S'', rhs = [''a'']\<rparr> 0 0 []], [EarleyItem \<lparr>rid = 0, lhs = ''S'', rhs = [''a'']\<rparr> 0 1 []]] [''a''] ''S''
     = Some (EarleyItem \<lparr>rid = 0, lhs = ''S'', rhs = [''a'']\<rparr> 0 1 []) \<and>
   EarleyItem \<lparr>rid = 0, lhs = ''S'', rhs = [''a'']\<rparr> 0 1 []
     \<in> set (last [[EarleyItem \<lparr>rid = 0, lhs = ''S'', rhs = [''a'']\<rparr> 0 0 []], [EarleyItem \<lparr>rid = 0, lhs = ''S'', rhs = [''a'']\<rparr> 0 1 []]])"
proof -
  have e: "earley \<lparr>rules = [(''S'', [\<lparr>rid = 0, lhs = ''S'', rhs = [''a'']\<rparr>])], start_rule = ''S''\<rparr> {''a''} [''a'']
     = Inr [[EarleyItem \<lparr>rid = 0, lhs = ''S'', rhs = [''a'']\<rparr> 0 0 []], [EarleyItem \<lparr>rid = 0, lhs = ''S'', rhs = [''a'']\<rparr> 0 1 []]]"
    by code_simp
  have a: "acceptance [[EarleyItem \<lparr>rid = 0, lhs = ''S'', rhs = [''a'']\<rparr> 0 0 []], [EarleyItem \<lparr>rid = 0, lhs = ''S'', rhs = [''a'']\<rparr> 0 1 []]] [''a''] ''S''
     = Some (EarleyItem \<lparr>rid = 0, lhs = ''S'', rhs = [''a'']\<rparr> 0 1 [])"
    by (simp add: acceptance_def accepting_def)
  show ?thesis
    using e a acceptance_check[of "[[EarleyItem \<lparr>rid = 0, lhs = ''S'', rhs = [''a'']\<rparr> 0 0 []], [EarleyItem \<lparr>rid = 0, lhs = ''S'', rhs = [''a'']\<rparr> 0 1 []]]" "[''a'']" "''S''"]
    by simp
qed

section \<open>Construction of the grammar and missing rules\<close>

lemma map_of_dict_set: "map_of (dict_set d k v) x = (if x = k then Some v else map_of d x)"
  by (induction d k v rule: dict_set.induct) auto

lemma map_of_add_rule:
  "map_of (add_rule d r) x =
     (if x = lhs r then Some ((case map_of d x of None \<Rightarrow> [] | Some l \<Rightarrow> l) @ [r])
      else map_of d x)"
  by (auto simp: add_rule_def map_of_dict_set split: option.splits)

lemma map_of_foldl_add_rule:
  "map_of (foldl add_rule d rs) x =
     (case map_of d x of
        None \<Rightarrow> (if filter (\<lambda>r. lhs r = x) rs = [] then None else Some (filter (\<lambda>r. lhs r = x) rs))
      | Some l \<Rightarrow> Some (l @ filter (\<lambda>r. lhs r = x) rs))"
proof (induction rs arbitrary: d)
  case Nil
  then show ?case by (simp split: option.splits)
next
  case (Cons r rs)
  show ?case
    by (simp add: Cons.IH map_of_add_rule split: option.splits)
qed

lemma Grammar_init_lookup:
  "map_of (rules (Grammar_init rs s)) x =
     (if x \<in> lhs ` set rs then Some (filter (\<lambda>r. lhs r = x) rs) else None)"
proof -
  have "filter (\<lambda>r. lhs r = x) rs = [] \<longleftrightarrow> x \<notin> lhs ` set rs"
    by (auto simp: filter_empty_conv)
  then show ?thesis
    by (simp add: Grammar_init_def map_of_foldl_add_rule)
qed


text \<open>
  What the main loop processes. \<open>visit\<close> is one iteration of the loop over the collection at
  position \<open>i\<close>: the cursor is at an item of the collection, the body returns, and the cursor
  moves on. \<open>processed\<close> says that the main loop comes to run its body on an item at input
  position \<open>i\<close>: the positions before \<open>i\<close> have been done and returned the chart \<open>c0\<close>, and from
  cursor \<open>0\<close> on \<open>c0\<close> the iterations lead to a chart in which the item is under the cursor.
  \<open>expects_missing\<close> says that the symbol after the dot of an item is a non-terminal for which
  the grammar has no rules.
\<close>

inductive visit :: "Grammar \<Rightarrow> symbol set \<Rightarrow> symbol \<Rightarrow> nat \<Rightarrow> nat \<times> chart \<Rightarrow> nat \<times> chart \<Rightarrow> bool"
  for grammar terminals word i where
  "k < length (ch ! i) \<Longrightarrow> dispatch grammar terminals word i (ch ! i ! k) ch = Inr ch' \<Longrightarrow>
   visit grammar terminals word i (k, ch) (Suc k, ch')"

definition processed :: "Grammar \<Rightarrow> symbol set \<Rightarrow> symbol list \<Rightarrow> nat \<Rightarrow> EarleyItem \<Rightarrow> bool" where
  "processed grammar terminals sentence i item \<longleftrightarrow>
     (\<exists>rs c0 k ch.
        map_of (rules grammar) (start_rule grammar) = Some rs \<and> i < length sentence \<and>
        earley_positions grammar terminals (take i sentence) 0 (initial_chart rs sentence) = Inr c0 \<and>
        (visit grammar terminals (sentence ! i) i)\<^sup>*\<^sup>* (0, c0) (k, ch) \<and>
        k < length (ch ! i) \<and> item = ch ! i ! k)"

definition expects_missing :: "Grammar \<Rightarrow> symbol set \<Rightarrow> EarleyItem \<Rightarrow> symbol \<Rightarrow> bool" where
  "expects_missing grammar terminals item symb \<longleftrightarrow>
     next_symb item terminals = (NonTerminal, Some symb) \<and> map_of (rules grammar) symb = None"

lemma dispatch_missing:
  "expects_missing g T item symb \<Longrightarrow> dispatch g T word i item ch = Inl (KeyError symb)"
  by (simp add: expects_missing_def dispatch_def predict_def)

lemma dispatch_error_missing:
  assumes "chart_inv ch" "i + 1 < length ch" "item \<in> set (ch ! i)"
    "dispatch g T word i item ch = Inl e"
  shows "\<exists>symb. expects_missing g T item symb \<and> e = KeyError symb"
proof -
  obtain st sy where ns: "next_symb item T = (st, sy)" by (cases "next_symb item T")
  have "start item < length ch"
    using chart_invD[OF assms(1) _ assms(3)] assms(2) by simp
  then show ?thesis
    using assms(2,4) ns
    by (cases st; cases sy)
       (auto simp: dispatch_def complete_def predict_def scan_def expects_missing_def
             split: if_splits option.splits)
qed

lemma visit_same_result:
  "(visit g T word i)\<^sup>*\<^sup>* a b \<Longrightarrow>
   earley_items g T word i (fst a) (snd a) = earley_items g T word i (fst b) (snd b)"
proof (induction rule: rtranclp_induct)
  case base
  then show ?case by simp
next
  case (step y z)
  from step.hyps(2) have "earley_items g T word i (fst y) (snd y) = earley_items g T word i (fst z) (snd z)"
    by cases (subst earley_items.simps, simp)
  with step.IH show ?case by simp
qed

lemma earley_items_error_visit:
  assumes "chart_inv ch" "i + 1 < length ch" "earley_items g T word i k ch = Inl e"
  shows "\<exists>k' ch'. (visit g T word i)\<^sup>*\<^sup>* (k, ch) (k', ch') \<and> k' < length (ch' ! i) \<and>
           chart_inv ch' \<and> length ch' = length ch \<and>
           dispatch g T word i (ch' ! i ! k') ch' = Inl e"
  using assms
proof (induction g T word i k ch rule: earley_items.induct)
  case (1 g T word i k ch)
  from 1(4) have k: "k < length (ch ! i)"
    by (subst (asm) earley_items.simps) (auto split: if_splits)
  have mem: "ch ! i ! k \<in> set (ch ! i)" using k by simp
  show ?case
  proof (cases "dispatch g T word i (ch ! i ! k) ch")
    case (Inl e')
    with 1(4) k have "e' = e" by (subst (asm) earley_items.simps) simp
    with Inl k 1(2) show ?thesis by blast
  next
    case (Inr ch1)
    with 1(4) k have r: "earley_items g T word i (Suc k) ch1 = Inl e"
      by (subst (asm) earley_items.simps) simp
    have s: "(step g T i)\<^sup>*\<^sup>* ch ch1"
      using 1(3) mem Inr by (intro dispatch_steps[where item = "ch ! i ! k"]) auto
    have inv1: "chart_inv ch1" using s 1(2) by (rule steps_inv)
    have len1: "length ch1 = length ch" using s by (auto dest: steps_le chart_le_length)
    from 1(1)[OF k Inr inv1 _ r] 1(3) len1 obtain k' ch' where
      v: "(visit g T word i)\<^sup>*\<^sup>* (Suc k, ch1) (k', ch')" and
      rest: "k' < length (ch' ! i)" "chart_inv ch'" "length ch' = length ch1"
        "dispatch g T word i (ch' ! i ! k') ch' = Inl e"
      by auto
    have one: "visit g T word i (k, ch) (Suc k, ch1)" using k Inr by (rule visit.intros)
    from one v have "(visit g T word i)\<^sup>*\<^sup>* (k, ch) (k', ch')"
      by (rule converse_rtranclp_into_rtranclp)
    with rest len1 show ?thesis by auto
  qed
qed

lemma earley_positions_error_split:
  assumes "chart_inv ch" "i0 + length w < length ch" "earley_positions g T w i0 ch = Inl e"
  shows "\<exists>j c0. j < length w \<and> earley_positions g T (take j w) i0 ch = Inr c0 \<and>
           chart_inv c0 \<and> length c0 = length ch \<and>
           earley_items g T (w ! j) (i0 + j) 0 c0 = Inl e"
  using assms
proof (induction w arbitrary: i0 ch)
  case Nil
  then show ?case by simp
next
  case (Cons word w)
  have i: "i0 < length ch" using Cons.prems(2) by auto
  show ?case
  proof (cases "earley_items g T word i0 0 ch")
    case (Inl e')
    with Cons.prems(3) i have "e' = e" by simp
    with Inl Cons.prems(1) show ?thesis
      by (intro exI[of _ 0] exI[of _ ch]) simp
  next
    case (Inr ch1)
    with Cons.prems(3) i have r: "earley_positions g T w (Suc i0) ch1 = Inl e" by simp
    have s: "(step g T i0)\<^sup>*\<^sup>* ch ch1" using i Inr by (rule earley_items_steps)
    have inv1: "chart_inv ch1" using s Cons.prems(1) by (rule steps_inv)
    have len1: "length ch1 = length ch" using s by (auto dest: steps_le chart_le_length)
    from Cons.IH[OF inv1 _ r] Cons.prems(2) len1 obtain j c0 where
      j: "j < length w" "earley_positions g T (take j w) (Suc i0) ch1 = Inr c0"
        "chart_inv c0" "length c0 = length ch1"
        "earley_items g T (w ! j) (Suc i0 + j) 0 c0 = Inl e"
      by auto
    show ?thesis
      using j i Inr len1 by (intro exI[of _ "Suc j"] exI[of _ c0]) simp
  qed
qed

lemma earley_positions_error_join:
  assumes "j < length w" "earley_positions g T (take j w) i0 ch = Inr c0"
    "i0 + j < length c0" "earley_items g T (w ! j) (i0 + j) 0 c0 = Inl e"
  shows "earley_positions g T w i0 ch = Inl e"
  using assms
proof (induction j arbitrary: w i0 ch)
  case 0
  then obtain word w' where w: "w = word # w'" by (cases w) auto
  with 0 show ?case by simp
next
  case (Suc j)
  then obtain word w' where w: "w = word # w'" by (cases w) auto
  show ?case
  proof (cases "i0 < length ch")
    case False
    with Suc.prems(2) w have "c0 = ch" by simp
    with False Suc.prems(3) show ?thesis by simp
  next
    case True
    with Suc.prems(2) w obtain ch1 where
      a: "earley_items g T word i0 0 ch = Inr ch1"
      and b: "earley_positions g T (take j w') (Suc i0) ch1 = Inr c0"
      by (auto split: sum.splits)
    have "earley_positions g T w' (Suc i0) ch1 = Inl e"
      using Suc.prems w b by (intro Suc.IH[of w' "Suc i0" ch1]) auto
    with True a w show ?thesis by simp
  qed
qed

lemma missing_rules_iff:
  "earley g T w = Inl e \<longleftrightarrow>
     (map_of (rules g) (start_rule g) = None \<and> e = KeyError (start_rule g)) \<or>
     (\<exists>i item symb. processed g T w i item \<and> expects_missing g T item symb \<and> e = KeyError symb)"
proof
  assume err: "earley g T w = Inl e"
  show "(map_of (rules g) (start_rule g) = None \<and> e = KeyError (start_rule g)) \<or>
     (\<exists>i item symb. processed g T w i item \<and> expects_missing g T item symb \<and> e = KeyError symb)"
  proof (cases "map_of (rules g) (start_rule g)")
    case None
    with err show ?thesis by (simp add: earley_def)
  next
    case (Some rs)
    let ?c = "initial_chart rs w"
    have p: "earley_positions g T w 0 ?c = Inl e"
    proof (cases "earley_positions g T w 0 ?c")
      case (Inl e')
      with err Some show ?thesis by (simp add: earley_def)
    next
      case (Inr ch)
      have s: "(any_step g T (length w))\<^sup>*\<^sup>* ?c ch"
        using Inr by (rule earley_positions_steps) simp
      then have len: "length ch = length w + 1"
        by (auto dest!: any_steps_le chart_le_length simp: length_initial_chart)
      have inv: "chart_inv ch" using s chart_inv_initial by (rule any_steps_inv)
      obtain ch' where "earley_final T (length w) 0 ch = Inr ch'"
        using earley_final_no_error[OF inv, of "length w" T 0] len by auto
      moreover have "ch \<noteq> []" "length ch - 1 = length w" using len by auto
      ultimately show ?thesis using err Some Inr by (simp add: earley_def)
    qed
    from earley_positions_error_split[OF chart_inv_initial _ p] obtain j c0 where
      j: "j < length w" "earley_positions g T (take j w) 0 ?c = Inr c0"
        "chart_inv c0" "length c0 = length ?c" "earley_items g T (w ! j) j 0 c0 = Inl e"
      by (auto simp: length_initial_chart)
    have j1: "j + 1 < length c0" using j(1,4) by (simp add: length_initial_chart)
    from earley_items_error_visit[OF j(3) j1 j(5)] obtain k ch where
      v: "(visit g T (w ! j) j)\<^sup>*\<^sup>* (0, c0) (k, ch)" "k < length (ch ! j)"
        "chart_inv ch" "length ch = length c0" "dispatch g T (w ! j) j (ch ! j ! k) ch = Inl e"
      by blast
    have "ch ! j ! k \<in> set (ch ! j)" using v(2) by simp
    from dispatch_error_missing[OF v(3) _ this v(5)] j1 v(4) obtain symb where
      symb: "expects_missing g T (ch ! j ! k) symb" "e = KeyError symb" by auto
    have "processed g T w j (ch ! j ! k)"
      unfolding processed_def using Some j(1,2) v(1,2) by blast
    with symb show ?thesis by blast
  qed
next
  assume "(map_of (rules g) (start_rule g) = None \<and> e = KeyError (start_rule g)) \<or>
     (\<exists>i item symb. processed g T w i item \<and> expects_missing g T item symb \<and> e = KeyError symb)"
  then show "earley g T w = Inl e"
  proof
    assume "map_of (rules g) (start_rule g) = None \<and> e = KeyError (start_rule g)"
    then show ?thesis by (simp add: earley_def)
  next
    assume "\<exists>i item symb. processed g T w i item \<and> expects_missing g T item symb \<and> e = KeyError symb"
    then obtain i item symb rs c0 k ch where
      rs: "map_of (rules g) (start_rule g) = Some rs" and i: "i < length w"
      and p: "earley_positions g T (take i w) 0 (initial_chart rs w) = Inr c0"
      and v: "(visit g T (w ! i) i)\<^sup>*\<^sup>* (0, c0) (k, ch)" and k: "k < length (ch ! i)"
      and item: "item = ch ! i ! k" and m: "expects_missing g T item symb" and e: "e = KeyError symb"
      by (auto simp: processed_def)
    have "earley_items g T (w ! i) i k ch = Inl e"
      using k dispatch_missing[OF m, of "w ! i" i ch] item e
      by (subst earley_items.simps) simp
    then have it: "earley_items g T (w ! i) i 0 c0 = Inl e"
      using visit_same_result[OF v] by simp
    have "(any_step g T (length w))\<^sup>*\<^sup>* (initial_chart rs w) c0"
      using p i by (intro earley_positions_steps[of g T "take i w" 0]) auto
    then have "length c0 = length w + 1"
      by (auto dest!: any_steps_le chart_le_length simp: length_initial_chart)
    then have "0 + i < length c0" using i by simp
    with i p it have "earley_positions g T w 0 (initial_chart rs w) = Inl e"
      by (intro earley_positions_error_join[of i w g T 0]) auto
    with rs show ?thesis by (simp add: earley_def)
  qed
qed

text \<open>
  C4, as the code has it. \<open>Grammar.__init__\<close> validates nothing: it keeps the start symbol and
  groups the rules by left-hand symbol, in declaration order, and always returns a grammar.
  A start symbol without rules makes \<open>earley\<close> raise \<^verbatim>\<open>KeyError\<close> when it builds the first
  collection. A symbol without rules makes \<open>predict\<close> raise \<^verbatim>\<open>KeyError\<close> when it is called for
  that symbol, during the parse: \<open>earley\<close> raises exactly when the start symbol has no rules
  or its main loop, at some input position, processes an item whose symbol after the dot is
  a non-terminal without rules, and the exception is the \<^verbatim>\<open>KeyError\<close> for that symbol. When the
  start symbol has rules and the main loop processes no such item, \<open>earley\<close> returns a chart;
  the final sweep never raises.
\<close>

theorem grammar_errors_at_parse:
  "start_rule (Grammar_init rs s) = s \<and>
   map_of (rules (Grammar_init rs s)) x =
     (if x \<in> lhs ` set rs then Some (filter (\<lambda>r. lhs r = x) rs) else None) \<and>
   (s \<notin> lhs ` set rs \<longrightarrow> earley (Grammar_init rs s) T w = Inl (KeyError s)) \<and>
   (predict g c symb i = Inl e \<longleftrightarrow> e = KeyError symb \<and> map_of (rules g) symb = None) \<and>
   (earley g T w = Inl e \<longrightarrow> (\<exists>symb. e = KeyError symb \<and> map_of (rules g) symb = None)) \<and>
   (earley g T w = Inl e \<longleftrightarrow>
      (map_of (rules g) (start_rule g) = None \<and> e = KeyError (start_rule g)) \<or>
      (\<exists>i item symb. processed g T w i item \<and>
         next_symb item T = (NonTerminal, Some symb) \<and> map_of (rules g) symb = None \<and>
         e = KeyError symb)) \<and>
   ((\<exists>ch. earley g T w = Inr ch) \<longleftrightarrow>
      map_of (rules g) (start_rule g) \<noteq> None \<and>
      (\<nexists>i item symb. processed g T w i item \<and>
         next_symb item T = (NonTerminal, Some symb) \<and> map_of (rules g) symb = None))"
proof -
  have a: "start_rule (Grammar_init rs s) = s" by (simp add: Grammar_init_def)
  have b: "s \<notin> lhs ` set rs \<longrightarrow> earley (Grammar_init rs s) T w = Inl (KeyError s)"
    by (simp add: earley_def Grammar_init_lookup a)
  have c: "predict g c symb i = Inl e \<longleftrightarrow> e = KeyError symb \<and> map_of (rules g) symb = None"
    by (auto simp: predict_def split: option.splits)
  have d: "earley g T w = Inl e \<longrightarrow> (\<exists>symb. e = KeyError symb \<and> map_of (rules g) symb = None)"
    using earley_error[of g T w e] by (simp add: key_error_def)
  have f: "earley g T w = Inl e' \<longleftrightarrow>
      (map_of (rules g) (start_rule g) = None \<and> e' = KeyError (start_rule g)) \<or>
      (\<exists>i item symb. processed g T w i item \<and>
         next_symb item T = (NonTerminal, Some symb) \<and> map_of (rules g) symb = None \<and>
         e' = KeyError symb)" for e'
    using missing_rules_iff[of g T w e'] by (simp add: expects_missing_def conj_assoc)
  have h: "(\<exists>ch. earley g T w = Inr ch) \<longleftrightarrow>
      map_of (rules g) (start_rule g) \<noteq> None \<and>
      (\<nexists>i item symb. processed g T w i item \<and>
         next_symb item T = (NonTerminal, Some symb) \<and> map_of (rules g) symb = None)"
  proof
    assume "\<exists>ch. earley g T w = Inr ch"
    then obtain ch where ch: "earley g T w = Inr ch" ..
    have "map_of (rules g) (start_rule g) \<noteq> None"
      using ch by (auto simp: earley_def split: option.splits)
    moreover have "\<nexists>i item symb. processed g T w i item \<and>
         next_symb item T = (NonTerminal, Some symb) \<and> map_of (rules g) symb = None"
    proof
      assume "\<exists>i item symb. processed g T w i item \<and>
         next_symb item T = (NonTerminal, Some symb) \<and> map_of (rules g) symb = None"
      then obtain i item symb where "processed g T w i item"
        "next_symb item T = (NonTerminal, Some symb)" "map_of (rules g) symb = None"
        by blast
      then have "earley g T w = Inl (KeyError symb)"
        using f[of "KeyError symb"] by blast
      with ch show False by simp
    qed
    ultimately show "map_of (rules g) (start_rule g) \<noteq> None \<and>
      (\<nexists>i item symb. processed g T w i item \<and>
         next_symb item T = (NonTerminal, Some symb) \<and> map_of (rules g) symb = None)" ..
  next
    assume r: "map_of (rules g) (start_rule g) \<noteq> None \<and>
      (\<nexists>i item symb. processed g T w i item \<and>
         next_symb item T = (NonTerminal, Some symb) \<and> map_of (rules g) symb = None)"
    show "\<exists>ch. earley g T w = Inr ch"
    proof (cases "earley g T w")
      case (Inl e')
      then show ?thesis using f[of e'] r by blast
    next
      case (Inr ch)
      then show ?thesis by blast
    qed
  qed
  note l = Grammar_init_lookup[of rs s x]
  note fe = f[of e]
  show ?thesis
    by (intro conjI a l b c d fe h)
qed

theorem grammar_errors_at_parse_witness:
  "earley (Grammar_init [\<lparr>rid = 0, lhs = ''S'', rhs = [''a'']\<rparr>] ''T'') {''a''} [''a'']
     = Inl (KeyError ''T'') \<and>
   map_of (rules (Grammar_init [\<lparr>rid = 0, lhs = ''S'', rhs = [''a'']\<rparr>] ''T'')) ''T'' = None \<and>
   earley \<lparr>rules = [(''S'', [\<lparr>rid = 0, lhs = ''S'', rhs = [''a'', ''A'']\<rparr>])], start_rule = ''S''\<rparr> {''a'', ''b''} [''a'', ''b'']
     = Inl (KeyError ''A'') \<and>
   (\<exists>i item. processed \<lparr>rules = [(''S'', [\<lparr>rid = 0, lhs = ''S'', rhs = [''a'', ''A'']\<rparr>])], start_rule = ''S''\<rparr> {''a'', ''b''} [''a'', ''b''] i item \<and>
      next_symb item {''a'', ''b''} = (NonTerminal, Some ''A''))"
proof -
  let ?g = "\<lparr>rules = [(''S'', [\<lparr>rid = 0, lhs = ''S'', rhs = [''a'', ''A'']\<rparr>])], start_rule = ''S''\<rparr>"
  have e: "earley ?g {''a'', ''b''} [''a'', ''b''] = Inl (KeyError ''A'')"
    by code_simp
  have s: "map_of (rules ?g) (start_rule ?g) \<noteq> None" by simp
  note t = grammar_errors_at_parse[where g = ?g and T = "{''a'', ''b''}" and w = "[''a'', ''b'']"
      and e = "KeyError ''A''"]
  note iff = t[THEN conjunct2, THEN conjunct2, THEN conjunct2, THEN conjunct2, THEN conjunct2,
      THEN conjunct1]
  from iff[THEN iffD1, OF e] s
  have "\<exists>i item symb. processed ?g {''a'', ''b''} [''a'', ''b''] i item \<and>
         next_symb item {''a'', ''b''} = (NonTerminal, Some symb) \<and> map_of (rules ?g) symb = None \<and>
         KeyError ''A'' = KeyError symb"
    by blast
  then obtain i item symb where "processed ?g {''a'', ''b''} [''a'', ''b''] i item"
    "next_symb item {''a'', ''b''} = (NonTerminal, Some symb)" "KeyError ''A'' = KeyError symb"
    by blast
  then have p: "\<exists>i item. processed ?g {''a'', ''b''} [''a'', ''b''] i item \<and>
      next_symb item {''a'', ''b''} = (NonTerminal, Some ''A'')"
    by (intro exI[of _ i] exI[of _ item]) simp
  show ?thesis
    using e p grammar_errors_at_parse[where rs = "[\<lparr>rid = 0, lhs = ''S'', rhs = [''a'']\<rparr>]"
      and s = "''T''" and x = "''T''" and T = "{''a''}" and w = "[''a'']"]
    by simp
qed

text \<open>
  The claim that a malformed grammar fails at construction does not hold. The constructor
  returns a grammar for an empty rule list; the missing start symbol is reported by
  \<open>earley\<close>. With the rule \<open>S -> a A\<close> and no rule for \<open>A\<close>, the input \<open>b\<close> is parsed to the end
  and rejected without any exception, and so is the input \<open>a\<close>, where the item that expects
  \<open>A\<close> is met by the final sweep only; the input \<open>a b\<close> raises \<^verbatim>\<open>KeyError\<close> for \<open>A\<close> at the second
  position.
\<close>

theorem grammar_validation_counterexample:
  "Grammar_init [] ''S'' = \<lparr>rules = [], start_rule = ''S''\<rparr> \<and>
   earley (Grammar_init [] ''S'') {} [] = Inl (KeyError ''S'') \<and>
   main 1000 [\<lparr>rid = 0, lhs = ''S'', rhs = [''a'', ''A'']\<rparr>] ''S'' {''a'', ''b''} [''b''] = Inr None \<and>
   main 1000 [\<lparr>rid = 0, lhs = ''S'', rhs = [''a'', ''A'']\<rparr>] ''S'' {''a'', ''b''} [''a''] = Inr None \<and>
   main 1000 [\<lparr>rid = 0, lhs = ''S'', rhs = [''a'', ''A'']\<rparr>] ''S'' {''a'', ''b''} [''a'', ''b'']
     = Inl (KeyError ''A'')"
  by code_simp

section \<open>The final sweep\<close>

lemma complete_steps_other:
  "(complete_step T n)\<^sup>*\<^sup>* ch ch' \<Longrightarrow> j \<noteq> n \<Longrightarrow> ch' ! j = ch ! j"
  by (induction rule: rtranclp_induct) (auto simp: put_nth_other elim!: complete_step.cases)

lemma put_mem_any: "n < length ch \<Longrightarrow> x \<in> set (ch ! j) \<Longrightarrow> x \<in> set (put ch n v ! j)"
  by (cases "j = n") (auto simp: put_nth_other put_mem)

lemma complete_steps_new:
  assumes "(complete_step T n)\<^sup>*\<^sup>* ch ch'" "x \<in> set (ch' ! n)" "x \<notin> set (ch ! n)"
  shows "\<exists>e\<in>set (ch' ! n). \<exists>old\<in>set (ch' ! start e).
           finished e \<and> expects T e old \<and> x = advance e old"
  using assms
proof (induction arbitrary: x rule: rtranclp_induct)
  case base
  then show ?case by simp
next
  case (step y z)
  from step.hyps(2) obtain e old where n: "n < length y" and e: "e \<in> set (y ! n)" "finished e"
    and old: "old \<in> set (y ! start e)" "expects T e old" and z: "z = put y n (advance e old)"
    by cases auto
  have up: "a \<in> set (z ! j)" if "a \<in> set (y ! j)" for a j
    unfolding z using n that by (rule put_mem_any)
  show ?case
  proof (cases "x \<in> set (y ! n)")
    case True
    from step.IH[OF True step.prems(2)] obtain e' old' where
      "e' \<in> set (y ! n)" "old' \<in> set (y ! start e')" "finished e'" "expects T e' old'"
      "x = advance e' old'" by blast
    then show ?thesis using up by blast
  next
    case False
    with step.prems(1) have "x = advance e old" unfolding z using put_new by blast
    with e old up show ?thesis by blast
  qed
qed

lemma earley_final_le:
  "n < length ch \<Longrightarrow> earley_final T n k ch = Inr ch' \<Longrightarrow> chart_le ch ch'"
  by (rule complete_steps_le, rule earley_final_steps)

lemma earley_final_closed:
  assumes "n < length ch" "earley_final T n k ch = Inr ch'" "k \<le> m" "m < length (ch' ! n)"
    "finished (ch' ! n ! m)" "old \<in> set (ch ! start (ch' ! n ! m))" "expects T (ch' ! n ! m) old"
  shows "\<exists>x\<in>set (ch' ! n). item_eq x (advance (ch' ! n ! m) old)"
  using assms
proof (induction T n k ch rule: earley_final.induct)
  case (1 T n k ch)
  have le: "chart_le ch ch'" using 1(4,5) by (rule earley_final_le)
  have k: "k < length (ch ! n)"
  proof (rule ccontr)
    assume "\<not> k < length (ch ! n)"
    then have "ch' = ch" using 1(5) by (subst (asm) earley_final_unfold) simp
    with \<open>\<not> k < length (ch ! n)\<close> 1(6,7) show False by simp
  qed
  obtain st sy where ns: "next_symb (ch ! n ! k) T = (st, sy)"
    by (cases "next_symb (ch ! n ! k) T")
  have same: "ch' ! n ! k = ch ! n ! k" using le 1(4) k by (rule chart_le_nth)
  let ?e = "ch' ! n ! m"
  show ?case
  proof (cases "finished (ch ! n ! k)")
    case fin: True
    then have st: "st = Complete" using ns by (simp add: finished_iff[of _ T])
    from 1(5) k fin obtain ch1 where
      c: "complete ch n (ch ! n ! k) T = Inr ch1"
      and r: "earley_final T n (Suc k) ch1 = Inr ch'"
      by (subst (asm) earley_final_unfold) (auto split: sum.splits)
    from c have src: "start (ch ! n ! k) < length ch"
      and ch1: "ch1 = complete_loop T (ch ! n ! k) (start (ch ! n ! k)) n 0 ch"
      by (auto simp: complete_def split: if_splits)
    have le1: "chart_le ch ch1" unfolding ch1 by (rule complete_loop_le)
    have len1: "length ch1 = length ch" using le1 by (rule chart_le_length)
    have le2: "chart_le ch1 ch'" using r len1 1(4) by (intro earley_final_le[of n ch1 T "Suc k"]) auto
    show ?thesis
    proof (cases "m = k")
      case True
      then have e: "?e = ch ! n ! k" using same by simp
      from 1(9) e have "old \<in> set (ch ! start (ch ! n ! k))" by simp
      then have "old \<in> set (ch1 ! start (ch ! n ! k))"
        using chart_le_mem[OF le1 src] by simp
      then obtain m' where m': "m' < length (ch1 ! start (ch ! n ! k))"
        "ch1 ! start (ch ! n ! k) ! m' = old"
        by (auto simp: in_set_conv_nth)
      have "expects T (ch ! n ! k) (ch1 ! start (ch ! n ! k) ! m')"
        using 1(10) e m'(2) by simp
      from complete_loop_closed[OF 1(4) ch1 _ m'(1) src this] m'(2)
      obtain x where "x \<in> set (ch1 ! n)" "item_eq x (advance (ch ! n ! k) old)" by auto
      moreover have "x \<in> set (ch' ! n)" if "x \<in> set (ch1 ! n)" for x
        using chart_le_mem[OF le2 _ that] 1(4) len1 by simp
      ultimately show ?thesis using e by auto
    next
      case False
      then have m: "Suc k \<le> m" using 1(6) by simp
      have old1: "old \<in> set (ch1 ! start ?e)"
      proof (cases "start ?e = n")
        case True
        with 1(9) show ?thesis using chart_le_mem[OF le1 1(4)] by simp
      next
        case False
        then have "ch1 ! start ?e = ch ! start ?e"
          unfolding ch1 by (rule complete_loop_other)
        with 1(9) show ?thesis by simp
      qed
      show ?thesis
        using 1(1)[OF k ns[symmetric] st c _ r m 1(7,8) old1 1(10)] 1(4) len1 by simp
    qed
  next
    case nf: False
    then have st: "st \<noteq> Complete" using ns by (simp add: finished_iff[of _ T])
    from 1(5) k nf have r: "earley_final T n (Suc k) ch = Inr ch'"
      by (subst (asm) earley_final_unfold) simp
    have "m \<noteq> k" using nf same 1(8) by auto
    then have m: "Suc k \<le> m" using 1(6) by simp
    show ?thesis
      using st 1(2)[OF k ns[symmetric] _ 1(4) r m 1(7,8,9,10)]
        1(3)[OF k ns[symmetric] _ 1(4) r m 1(7,8,9,10)]
      by (cases st) auto
  qed
qed


definition origins_before :: "nat \<Rightarrow> chart \<Rightarrow> bool" where
  "origins_before N ch \<longleftrightarrow> (\<forall>item\<in>set (ch ! N). start item < N)"

lemma origins_before_put:
  assumes "origins_before N ch" "j = N \<Longrightarrow> start v < N"
  shows "origins_before N (put ch j v)"
proof (cases "j = N")
  case True
  with assms show ?thesis
    using put_new[of _ ch N v] by (auto simp: origins_before_def)
next
  case False
  with assms(1) show ?thesis by (simp add: origins_before_def put_nth_other)
qed

lemma any_steps_origins:
  assumes "(any_step g T N)\<^sup>*\<^sup>* ch ch'" "chart_inv ch" "origins_before N ch"
  shows "origins_before N ch'"
  using assms
proof (induction rule: rtranclp_induct)
  case base
  then show ?case by simp
next
  case (step y z)
  have inv: "chart_inv y" using step.hyps(1) step.prems(1) by (rule any_steps_inv)
  have ob: "origins_before N y" using step by simp
  from step.hyps(2) obtain i where i: "i < N" and s: "step g T i y z"
    by (auto simp: any_step_def)
  from s show ?case unfolding step_def
  proof (elim disjE)
    assume "predict_step g i y z"
    then show ?thesis using ob i by cases (auto intro!: origins_before_put)
  next
    assume "scan_step i y z"
    then show ?thesis
    proof cases
      case (1 it)
      then have "start it \<le> i" using chart_invD[OF inv, of i it] by simp
      with 1 ob i show ?thesis by (auto intro!: origins_before_put)
    qed
  next
    assume "complete_step T i y z"
    then show ?thesis using ob i by cases (auto intro!: origins_before_put)
  qed
qed

lemma complete_steps_origins:
  assumes "(complete_step T N)\<^sup>*\<^sup>* ch ch'" "chart_inv ch" "origins_before N ch"
  shows "origins_before N ch'"
  using assms
proof (induction rule: rtranclp_induct)
  case base
  then show ?case by simp
next
  case (step y z)
  have inv: "chart_inv y" using step.hyps(1) step.prems(1) by (rule complete_steps_inv)
  have ob: "origins_before N y" using step by simp
  from step.hyps(2) show ?case
  proof cases
    case (1 e old)
    then have "start e < N" using ob by (simp add: origins_before_def)
    moreover have "start old \<le> start e" using chart_invD[OF inv, of "start e" old] 1 by simp
    ultimately show ?thesis using 1 ob by (auto intro!: origins_before_put simp: advance_def)
  qed
qed

lemma origins_before_initial: "w \<noteq> [] \<Longrightarrow> origins_before (length w) (initial_chart rs w)"
proof -
  assume "w \<noteq> []"
  then have "initial_chart rs w ! length w = []"
    by (cases w) (simp_all add: initial_chart_def nth_Cons')
  then show ?thesis by (simp add: origins_before_def)
qed


text \<open>
  C5. A chart returned by \<open>earley\<close> is the chart \<open>ch\<close> left by the loop over the input positions,
  swept once more at the final position. The sweep changes no collection but the final
  one, which it extends at the end. Every item of the final collection whose dot is at the
  end of its rule, whether it was there before the sweep or was added by it, has been
  completed: for each item of its origin's collection that expects its left-hand symbol,
  the advanced item is in the final collection. Everything the sweep added is such an
  advanced item of a finished item, so nothing was predicted and nothing was scanned. For a
  non-empty input the origins of the final collection lie before the final position, so the
  origin's collection is the same before and after the sweep.
\<close>

theorem final_sweep:
  assumes "earley g T w = Inr ch'"
  shows "\<exists>rs ch. map_of (rules g) (start_rule g) = Some rs \<and>
           earley_positions g T w 0 (initial_chart rs w) = Inr ch \<and>
           earley_final T (length w) 0 ch = Inr ch' \<and>
           length ch = length w + 1 \<and> length ch' = length w + 1 \<and>
           (\<forall>j<length w. ch' ! j = ch ! j) \<and>
           prefix (ch ! length w) (ch' ! length w) \<and>
           (\<forall>e\<in>set (ch' ! length w). \<not> dot e < length (rhs (rule e)) \<longrightarrow>
              (\<forall>old\<in>set (ch ! start e). expects T e old \<longrightarrow>
                 (\<exists>x\<in>set (ch' ! length w). item_eq x (advance e old)))) \<and>
           (\<forall>x\<in>set (ch' ! length w). x \<notin> set (ch ! length w) \<longrightarrow>
              (\<exists>e\<in>set (ch' ! length w). \<exists>old\<in>set (ch' ! start e).
                 \<not> dot e < length (rhs (rule e)) \<and> expects T e old \<and> x = advance e old)) \<and>
           (w \<noteq> [] \<longrightarrow> (\<forall>e\<in>set (ch' ! length w). start e < length w))"
proof -
  from assms obtain rs ch where rs: "map_of (rules g) (start_rule g) = Some rs"
    and p: "earley_positions g T w 0 (initial_chart rs w) = Inr ch"
    and s1: "(any_step g T (length w))\<^sup>*\<^sup>* (initial_chart rs w) ch"
    and len: "length ch = length w + 1" and inv: "chart_inv ch"
    and f: "earley_final T (length w) 0 ch = Inr ch'"
    and s2: "(complete_step T (length w))\<^sup>*\<^sup>* ch ch'"
    by (rule earley_Inr)
  have n: "length w < length ch" using len by simp
  have le: "chart_le ch ch'" using s2 by (rule complete_steps_le)
  have len': "length ch' = length w + 1" using le len by (simp add: chart_le_length)
  have frame: "\<forall>j<length w. ch' ! j = ch ! j"
    using complete_steps_other[OF s2] by simp
  have pre: "prefix (ch ! length w) (ch' ! length w)"
    using le n by (simp add: chart_le_def)
  have closed: "\<exists>x\<in>set (ch' ! length w). item_eq x (advance e old)"
    if e: "e \<in> set (ch' ! length w)" "\<not> dot e < length (rhs (rule e))"
      and old: "old \<in> set (ch ! start e)" "expects T e old" for e old
  proof -
    from e(1) obtain m where m: "m < length (ch' ! length w)" "ch' ! length w ! m = e"
      by (auto simp: in_set_conv_nth)
    have "finished e" using e(2) by (simp add: finished_def)
    then show ?thesis
      using earley_final_closed[OF n f _ m(1), of old] m(2) old by simp
  qed
  have new: "\<exists>e\<in>set (ch' ! length w). \<exists>old\<in>set (ch' ! start e).
                 \<not> dot e < length (rhs (rule e)) \<and> expects T e old \<and> x = advance e old"
    if "x \<in> set (ch' ! length w)" "x \<notin> set (ch ! length w)" for x
  proof -
    from complete_steps_new[OF s2 that] obtain e old where
      "e \<in> set (ch' ! length w)" "old \<in> set (ch' ! start e)" "finished e" "expects T e old"
      "x = advance e old" by blast
    then show ?thesis
      by (intro bexI[of _ e] bexI[of _ old]) (auto simp: finished_def)
  qed
  have early: "\<forall>e\<in>set (ch' ! length w). start e < length w" if "w \<noteq> []"
  proof -
    have "origins_before (length w) ch"
      using s1 chart_inv_initial origins_before_initial[OF that] by (rule any_steps_origins)
    with s2 inv have "origins_before (length w) ch'" by (rule complete_steps_origins)
    then show ?thesis by (simp add: origins_before_def)
  qed
  from closed have closed': "\<forall>e\<in>set (ch' ! length w). \<not> dot e < length (rhs (rule e)) \<longrightarrow>
              (\<forall>old\<in>set (ch ! start e). expects T e old \<longrightarrow>
                 (\<exists>x\<in>set (ch' ! length w). item_eq x (advance e old)))"
    by blast
  from new have new': "\<forall>x\<in>set (ch' ! length w). x \<notin> set (ch ! length w) \<longrightarrow>
              (\<exists>e\<in>set (ch' ! length w). \<exists>old\<in>set (ch' ! start e).
                 \<not> dot e < length (rhs (rule e)) \<and> expects T e old \<and> x = advance e old)"
    by blast
  from early have early': "w \<noteq> [] \<longrightarrow> (\<forall>e\<in>set (ch' ! length w). start e < length w)"
    by blast
  show ?thesis
    apply (rule exI[of _ rs], rule exI[of _ ch])
    using rs p f len len' frame pre closed' new' early' by (intro conjI)
qed


theorem final_sweep_witness:
  "earley \<lparr>rules = [(''S'', [\<lparr>rid = 0, lhs = ''S'', rhs = [''S'', ''+'', ''S'']\<rparr>, \<lparr>rid = 1, lhs = ''S'', rhs = [''1'']\<rparr>])], start_rule = ''S''\<rparr>
      {''1'', ''+''} [''1'']
     = Inr [[EarleyItem \<lparr>rid = 0, lhs = ''S'', rhs = [''S'', ''+'', ''S'']\<rparr> 0 0 [],
       EarleyItem \<lparr>rid = 1, lhs = ''S'', rhs = [''1'']\<rparr> 0 0 []],
      [EarleyItem \<lparr>rid = 1, lhs = ''S'', rhs = [''1'']\<rparr> 0 1 [],
       EarleyItem \<lparr>rid = 0, lhs = ''S'', rhs = [''S'', ''+'', ''S'']\<rparr> 0 1
         [EarleyItem \<lparr>rid = 1, lhs = ''S'', rhs = [''1'']\<rparr> 0 1 []]]] \<and>
   (\<exists>x\<in>set ([[EarleyItem \<lparr>rid = 0, lhs = ''S'', rhs = [''S'', ''+'', ''S'']\<rparr> 0 0 [],
       EarleyItem \<lparr>rid = 1, lhs = ''S'', rhs = [''1'']\<rparr> 0 0 []],
      [EarleyItem \<lparr>rid = 1, lhs = ''S'', rhs = [''1'']\<rparr> 0 1 [],
       EarleyItem \<lparr>rid = 0, lhs = ''S'', rhs = [''S'', ''+'', ''S'']\<rparr> 0 1
         [EarleyItem \<lparr>rid = 1, lhs = ''S'', rhs = [''1'']\<rparr> 0 1 []]]] ! 1).
      item_eq x (advance (EarleyItem \<lparr>rid = 1, lhs = ''S'', rhs = [''1'']\<rparr> 0 1 [])
                   (EarleyItem \<lparr>rid = 0, lhs = ''S'', rhs = [''S'', ''+'', ''S'']\<rparr> 0 0 [])))"
proof -
  let ?g = "\<lparr>rules = [(''S'', [\<lparr>rid = 0, lhs = ''S'', rhs = [''S'', ''+'', ''S'']\<rparr>, \<lparr>rid = 1, lhs = ''S'', rhs = [''1'']\<rparr>])], start_rule = ''S''\<rparr>"
  let ?ch' = "[[EarleyItem \<lparr>rid = 0, lhs = ''S'', rhs = [''S'', ''+'', ''S'']\<rparr> 0 0 [],
       EarleyItem \<lparr>rid = 1, lhs = ''S'', rhs = [''1'']\<rparr> 0 0 []],
      [EarleyItem \<lparr>rid = 1, lhs = ''S'', rhs = [''1'']\<rparr> 0 1 [],
       EarleyItem \<lparr>rid = 0, lhs = ''S'', rhs = [''S'', ''+'', ''S'']\<rparr> 0 1
         [EarleyItem \<lparr>rid = 1, lhs = ''S'', rhs = [''1'']\<rparr> 0 1 []]]]"
  let ?e = "EarleyItem \<lparr>rid = 1, lhs = ''S'', rhs = [''1'']\<rparr> 0 1 []"
  let ?old = "EarleyItem \<lparr>rid = 0, lhs = ''S'', rhs = [''S'', ''+'', ''S'']\<rparr> 0 0 []"
  have e: "earley ?g {''1'', ''+''} [''1''] = Inr ?ch'"
    by code_simp
  from final_sweep[OF e] obtain rs ch where
    fr: "\<forall>j<length [''1'']. ?ch' ! j = ch ! j"
    and cl: "\<forall>e\<in>set (?ch' ! length [''1'']). \<not> dot e < length (rhs (rule e)) \<longrightarrow>
              (\<forall>old\<in>set (ch ! start e). expects {''1'', ''+''} e old \<longrightarrow>
                 (\<exists>x\<in>set (?ch' ! length [''1'']). item_eq x (advance e old)))"
    by blast
  have "ch ! 0 = ?ch' ! 0" using fr by simp
  then have old: "?old \<in> set (ch ! start ?e)" by simp
  have ex: "expects {''1'', ''+''} ?e ?old"
    by (simp add: expects_def next_symb_def)
  have mem: "?e \<in> set (?ch' ! length [''1''])" by simp
  have fin: "\<not> dot ?e < length (rhs (rule ?e))" by simp
  from cl mem fin old ex
  have "\<exists>x\<in>set (?ch' ! length [''1'']). item_eq x (advance ?e ?old)"
    by blast
  then show ?thesis using e by simp
qed

section \<open>The printed result and the identity of rules\<close>

text \<open>
  The script prints the extracted rules in reverse, one per line, each through
  \<^verbatim>\<open>Rule.__repr__\<close>, or the line \<^verbatim>\<open>Incorrect sentence.\<close>. \<open>join\<close> is \<^verbatim>\<open>str.join\<close>.
\<close>

fun join :: "string \<Rightarrow> string list \<Rightarrow> string" where
  "join sep [] = []"
| "join sep [x] = x"
| "join sep (x # y # ys) = x @ sep @ join sep (y # ys)"

definition Rule_repr :: "Rule \<Rightarrow> string" where
  "Rule_repr r = lhs r @ '' -> '' @ join '' '' (rhs r)"

definition script_output :: "nat \<Rightarrow> Rule list \<Rightarrow> symbol \<Rightarrow> symbol set \<Rightarrow> symbol list \<Rightarrow> error + string list" where
  "script_output frames rs s terminals sentence =
     (case main frames rs s terminals sentence of
        Inl e \<Rightarrow> Inl e
      | Inr None \<Rightarrow> Inr [''Incorrect sentence.'']
      | Inr (Some derivation) \<Rightarrow> Inr (map Rule_repr derivation))"


text \<open>
  Two runs of the script on the same input build their \<^verbatim>\<open>Rule\<close> objects anew, so the rules
  of the second run are other objects than those of the first: the same left- and
  right-hand sides under other identities. \<open>rename_rule\<close> gives a rule another identity, and
  the functions below carry a renaming through items, charts and grammars.
\<close>

definition rename_rule :: "(nat \<Rightarrow> nat) \<Rightarrow> Rule \<Rightarrow> Rule" where
  "rename_rule f r = r\<lparr>rid := f (rid r)\<rparr>"

fun rename_item :: "(nat \<Rightarrow> nat) \<Rightarrow> EarleyItem \<Rightarrow> EarleyItem" where
  "rename_item f (EarleyItem r s d p) = EarleyItem (rename_rule f r) s d (map (rename_item f) p)"

definition rename_chart :: "(nat \<Rightarrow> nat) \<Rightarrow> chart \<Rightarrow> chart" where
  "rename_chart f ch = map (map (rename_item f)) ch"

definition rename_dict :: "(nat \<Rightarrow> nat) \<Rightarrow> (symbol \<times> Rule list) list \<Rightarrow> (symbol \<times> Rule list) list" where
  "rename_dict f d = map (\<lambda>(k, rs). (k, map (rename_rule f) rs)) d"

definition rename_grammar :: "(nat \<Rightarrow> nat) \<Rightarrow> Grammar \<Rightarrow> Grammar" where
  "rename_grammar f g = \<lparr>rules = rename_dict f (rules g), start_rule = start_rule g\<rparr>"

definition rename_result :: "(nat \<Rightarrow> nat) \<Rightarrow> error + chart \<Rightarrow> error + chart" where
  "rename_result f r = (case r of Inl e \<Rightarrow> Inl e | Inr ch \<Rightarrow> Inr (rename_chart f ch))"

lemma rename_result_simps [simp]:
  "rename_result f (Inl e) = Inl e" "rename_result f (Inr ch) = Inr (rename_chart f ch)"
  by (simp_all add: rename_result_def)

lemma rename_rule_sel [simp]:
  "lhs (rename_rule f r) = lhs r" "rhs (rename_rule f r) = rhs r" "rid (rename_rule f r) = f (rid r)"
  by (simp_all add: rename_rule_def)

lemma rename_rule_eq: "inj f \<Longrightarrow> rename_rule f a = rename_rule f b \<longleftrightarrow> a = b"
  by (cases a; cases b) (auto simp: rename_rule_def dest: injD)

lemma rename_item_sel [simp]:
  "rule (rename_item f it) = rename_rule f (rule it)"
  "start (rename_item f it) = start it" "dot (rename_item f it) = dot it"
  "prev (rename_item f it) = map (rename_item f) (prev it)"
  by (cases it; simp)+

lemma item_eq_rename: "inj f \<Longrightarrow> item_eq (rename_item f a) (rename_item f b) = item_eq a b"
  by (simp add: item_eq_def rename_rule_eq)

lemma list_contains_rename:
  "inj f \<Longrightarrow> list_contains (map (rename_item f) S) (rename_item f v) = list_contains S v"
  by (simp add: list_contains_def list_ex_iff item_eq_rename)

lemma append_rename:
  "inj f \<Longrightarrow> snd (ItemSet_append (map (rename_item f) S) (rename_item f v))
     = map (rename_item f) (snd (ItemSet_append S v))"
  by (simp add: ItemSet_append_def list_contains_rename)

lemma extend_rename:
  "inj f \<Longrightarrow> ItemSet_extend (map (rename_item f) S) (map (rename_item f) vs)
     = map (rename_item f) (ItemSet_extend S vs)"
  by (induction vs arbitrary: S) (simp_all add: append_rename)

lemma next_symb_rename: "next_symb (rename_item f it) T = next_symb it T"
  by (simp add: next_symb_def)

lemma expects_rename: "expects T (rename_item f item) (rename_item f old) = expects T item old"
  by (simp add: expects_def next_symb_rename)

lemma advance_rename:
  "advance (rename_item f item) (rename_item f old) = rename_item f (advance item old)"
  by (simp add: advance_def)

lemma length_rename_chart [simp]: "length (rename_chart f ch) = length ch"
  by (simp add: rename_chart_def)

lemma nth_rename_chart:
  "j < length ch \<Longrightarrow> rename_chart f ch ! j = map (rename_item f) (ch ! j)"
  by (simp add: rename_chart_def)

lemma update_rename_chart:
  "(rename_chart f ch)[j := map (rename_item f) S] = rename_chart f (ch[j := S])"
  by (simp add: rename_chart_def map_update)

lemma put_rename:
  assumes "inj f"
  shows "put (rename_chart f ch) j (rename_item f v) = rename_chart f (put ch j v)"
proof (cases "j < length ch")
  case True
  then show ?thesis
    by (simp add: put_def nth_rename_chart append_rename[OF assms] update_rename_chart)
next
  case False
  then show ?thesis by (simp add: put_def list_update_beyond)
qed

lemma complete_loop_rename:
  assumes "inj f"
  shows "complete_loop T (rename_item f item) src dst k (rename_chart f ch)
           = rename_chart f (complete_loop T item src dst k ch)"
proof (induction T item src dst k ch rule: complete_loop.induct)
  case (1 T item src dst k ch)
  let ?ri = "rename_item f item" and ?rc = "rename_chart f ch"
  show ?case
  proof (cases "src < length ch \<and> k < length (ch ! src)")
    case False
    then have "\<not> (src < length ?rc \<and> k < length (?rc ! src))"
      by (auto simp: nth_rename_chart)
    then have "complete_loop T ?ri src dst k ?rc = ?rc"
      by (subst complete_loop_unfold) auto
    moreover have "complete_loop T item src dst k ch = ch"
      using False by (subst complete_loop_unfold) auto
    ultimately show ?thesis by simp
  next
    case True
    then have T': "src < length ?rc \<and> k < length (?rc ! src)"
      and old: "?rc ! src ! k = rename_item f (ch ! src ! k)"
      by (auto simp: nth_rename_chart)
    show ?thesis
    proof (cases "expects T item (ch ! src ! k)")
      case False
      have "complete_loop T ?ri src dst k ?rc = complete_loop T ?ri src dst (Suc k) ?rc"
        using T' old False by (subst complete_loop_unfold) (simp add: expects_rename)
      moreover have "complete_loop T item src dst k ch = complete_loop T item src dst (Suc k) ch"
        using True False by (subst complete_loop_unfold) simp
      ultimately show ?thesis using 1(2)[OF True refl False] by simp
    next
      case ex: True
      let ?ch1 = "put ch dst (advance item (ch ! src ! k))"
      have "complete_loop T ?ri src dst k ?rc
              = complete_loop T ?ri src dst (Suc k) (rename_chart f ?ch1)"
        using T' old ex
        by (subst complete_loop_unfold)
           (simp add: expects_rename advance_rename put_rename[OF assms])
      moreover have "complete_loop T item src dst k ch = complete_loop T item src dst (Suc k) ?ch1"
        using True ex by (subst complete_loop_unfold) simp
      ultimately show ?thesis
        using 1(1)[unfolded put_def[symmetric], OF True refl ex] by simp
    qed
  qed
qed

lemma complete_rename:
  "inj f \<Longrightarrow> complete (rename_chart f ch) i (rename_item f item) T
     = rename_result f (complete ch i item T)"
  by (simp add: complete_def complete_loop_rename)

lemma map_of_rename_dict:
  "map_of (rename_dict f d) x = map_option (map (rename_rule f)) (map_of d x)"
  by (induction d) (auto simp: rename_dict_def)

lemma predict_rename:
  assumes "inj f"
  shows "predict (rename_grammar f g) (rename_chart f ch) symb i
           = rename_result f (predict g ch symb i)"
proof (cases "map_of (rules g) symb")
  case None
  then show ?thesis
    by (simp add: predict_def rename_grammar_def map_of_rename_dict)
next
  case (Some rs)
  have m: "map (\<lambda>r. EarleyItem r i 0 []) (map (rename_rule f) rs)
             = map (rename_item f) (map (\<lambda>r. EarleyItem r i 0 []) rs)"
    by simp
  show ?thesis
  proof (cases "i < length ch")
    case True
    with Some show ?thesis
      unfolding predict_def rename_grammar_def
      by (simp add: map_of_rename_dict nth_rename_chart m extend_rename[OF assms]
            update_rename_chart del: map_map)
  next
    case False
    with Some show ?thesis
      by (simp add: predict_def rename_grammar_def map_of_rename_dict list_update_beyond)
  qed
qed

lemma scan_put:
  "scan ch item symb word i =
     (if symb = word then
        (if i + 1 < length ch then
           Inr (put ch (i + 1) (EarleyItem (rule item) (start item) (dot item + 1) (prev item)))
         else Inl IndexError)
      else Inr ch)"
  by (simp add: scan_def put_def)

lemma scan_rename:
  assumes "inj f"
  shows "scan (rename_chart f ch) (rename_item f item) symb word i
           = rename_result f (scan ch item symb word i)"
proof -
  have "EarleyItem (rename_rule f (rule item)) (start item) (dot item + 1)
          (map (rename_item f) (prev item))
        = rename_item f (EarleyItem (rule item) (start item) (dot item + 1) (prev item))"
    by simp
  then show ?thesis
    unfolding scan_put by (simp add: put_rename[OF assms] del: rename_item.simps)
qed

lemma dispatch_rename:
  assumes "inj f"
  shows "dispatch (rename_grammar f g) T word i (rename_item f item) (rename_chart f ch)
           = rename_result f (dispatch g T word i item ch)"
proof -
  obtain st sy where ns: "next_symb item T = (st, sy)" by (cases "next_symb item T")
  show ?thesis
    using ns
    by (cases st; cases sy)
       (simp_all add: dispatch_def next_symb_rename complete_rename[OF assms]
          predict_rename[OF assms] scan_rename[OF assms])
qed


lemma dispatch_length:
  assumes "dispatch g T word i item ch = Inr ch'"
  shows "length ch' = length ch"
proof -
  obtain st sy where ns: "next_symb item T = (st, sy)" by (cases "next_symb item T")
  have "chart_le ch ch'"
    using assms ns
    by (cases st; cases sy)
       (auto simp: dispatch_def chart_le_refl dest: predict_le scan_le complete_le)
  then show ?thesis by (rule chart_le_length)
qed

lemma earley_items_unfold:
  "earley_items g T word i k ch =
     (if k < length (ch ! i) then
        (case dispatch g T word i (ch ! i ! k) ch of
           Inl e \<Rightarrow> Inl e
         | Inr ch' \<Rightarrow> earley_items g T word i (Suc k) ch')
      else Inr ch)"
  by (rule earley_items.simps)

lemma earley_items_rename:
  assumes "inj f"
  shows "i < length ch \<Longrightarrow>
         earley_items (rename_grammar f g) T word i k (rename_chart f ch)
           = rename_result f (earley_items g T word i k ch)"
proof (induction g T word i k ch rule: earley_items.induct)
  case (1 g T word i k ch)
  let ?rg = "rename_grammar f g" and ?rc = "rename_chart f ch"
  have nth: "?rc ! i = map (rename_item f) (ch ! i)" using 1(2) by (rule nth_rename_chart)
  show ?case
  proof (cases "k < length (ch ! i)")
    case False
    then have "earley_items ?rg T word i k ?rc = Inr ?rc"
      using nth by (subst earley_items_unfold) simp
    moreover have "earley_items g T word i k ch = Inr ch"
      using False by (subst earley_items_unfold) simp
    ultimately show ?thesis by simp
  next
    case True
    have d: "dispatch ?rg T word i (?rc ! i ! k) ?rc
               = rename_result f (dispatch g T word i (ch ! i ! k) ch)"
      using dispatch_rename[OF assms, of g T word i "ch ! i ! k" ch] True nth by simp
    show ?thesis
    proof (cases "dispatch g T word i (ch ! i ! k) ch")
      case (Inl e)
      then have "earley_items g T word i k ch = Inl e"
        using True by (subst earley_items_unfold) simp
      moreover have "earley_items ?rg T word i k ?rc = Inl e"
        using True nth d Inl by (subst earley_items_unfold) simp
      ultimately show ?thesis by simp
    next
      case (Inr ch1)
      have len: "i < length ch1" using dispatch_length[OF Inr] 1(2) by simp
      have "earley_items g T word i k ch = earley_items g T word i (Suc k) ch1"
        using True Inr by (subst earley_items_unfold) simp
      moreover have "earley_items ?rg T word i k ?rc
                       = earley_items ?rg T word i (Suc k) (rename_chart f ch1)"
        using True nth d Inr by (subst earley_items_unfold) simp
      ultimately show ?thesis using 1(1)[OF True Inr len] by simp
    qed
  qed
qed

lemma earley_items_length:
  "i < length ch \<Longrightarrow> earley_items g T word i k ch = Inr ch' \<Longrightarrow> length ch' = length ch"
  by (auto dest!: earley_items_steps steps_le chart_le_length)

lemma earley_positions_rename:
  assumes "inj f"
  shows "earley_positions (rename_grammar f g) T w i (rename_chart f ch)
           = rename_result f (earley_positions g T w i ch)"
proof (induction w arbitrary: i ch)
  case Nil
  then show ?case by simp
next
  case (Cons word w)
  show ?case
  proof (cases "i < length ch")
    case False
    then show ?thesis by simp
  next
    case True
    show ?thesis
      using True earley_items_rename[OF assms True, of g T word 0] Cons.IH
      by (cases "earley_items g T word i 0 ch") simp_all
  qed
qed

lemma earley_final_rename:
  assumes "inj f"
  shows "n < length ch \<Longrightarrow>
         earley_final T n k (rename_chart f ch)
           = rename_result f (earley_final T n k ch)"
proof (induction T n k ch rule: earley_final.induct)
  case (1 T n k ch)
  let ?rc = "rename_chart f ch"
  have nth: "?rc ! n = map (rename_item f) (ch ! n)" using 1(4) by (rule nth_rename_chart)
  obtain st sy where ns: "next_symb (ch ! n ! k) T = (st, sy)"
    by (cases "next_symb (ch ! n ! k) T")
  show ?case
  proof (cases "k < length (ch ! n)")
    case False
    then have "earley_final T n k ?rc = Inr ?rc"
      using nth by (subst earley_final_unfold) simp
    moreover have "earley_final T n k ch = Inr ch"
      using False by (subst earley_final_unfold) simp
    ultimately show ?thesis by simp
  next
    case True
    have item: "?rc ! n ! k = rename_item f (ch ! n ! k)" using True nth by simp
    have fin: "finished (?rc ! n ! k) = finished (ch ! n ! k)"
      by (simp add: item finished_def)
    show ?thesis
    proof (cases "finished (ch ! n ! k)")
      case nf: False
      then have st: "st \<noteq> Complete" using ns by (simp add: finished_iff[of _ T])
      have "earley_final T n k ch = earley_final T n (Suc k) ch"
        using True nf by (subst earley_final_unfold) simp
      moreover have "earley_final T n k ?rc = earley_final T n (Suc k) ?rc"
        using True nth nf fin by (subst earley_final_unfold) simp
      moreover have "earley_final T n (Suc k) ?rc
                       = rename_result f (earley_final T n (Suc k) ch)"
        using st 1(2)[OF True ns[symmetric] _ 1(4)] 1(3)[OF True ns[symmetric] _ 1(4)]
        by (cases st) auto
      ultimately show ?thesis by simp
    next
      case f: True
      then have st: "st = Complete" using ns by (simp add: finished_iff[of _ T])
      have c: "complete ?rc n (?rc ! n ! k) T
                 = rename_result f (complete ch n (ch ! n ! k) T)"
        using complete_rename[OF assms, of ch n "ch ! n ! k" T] item by simp
      show ?thesis
      proof (cases "complete ch n (ch ! n ! k) T")
        case (Inl e)
        then have "earley_final T n k ch = Inl e"
          using True f by (subst earley_final_unfold) simp
        moreover have "earley_final T n k ?rc = Inl e"
          using True nth f fin c Inl by (subst earley_final_unfold) simp
        ultimately show ?thesis by simp
      next
        case (Inr ch1)
        have len: "n < length ch1"
          using complete_le[OF Inr] 1(4) by (simp add: chart_le_length)
        have "earley_final T n k ch = earley_final T n (Suc k) ch1"
          using True f Inr by (subst earley_final_unfold) simp
        moreover have "earley_final T n k ?rc = earley_final T n (Suc k) (rename_chart f ch1)"
          using True nth f fin c Inr by (subst earley_final_unfold) simp
        ultimately show ?thesis using 1(1)[OF True ns[symmetric] st Inr len] by simp
      qed
    qed
  qed
qed

lemma initial_chart_rename:
  "initial_chart (map (rename_rule f) rs) w = rename_chart f (initial_chart rs w)"
  by (simp add: initial_chart_def rename_chart_def)

lemma earley_positions_length:
  "earley_positions g T w i ch = Inr ch' \<Longrightarrow> length ch' = length ch"
  using earley_positions_steps[of g T w i ch ch' "i + length w"]
  by (auto dest!: any_steps_le chart_le_length)

lemma earley_rename:
  assumes "inj f"
  shows "earley (rename_grammar f g) T w = rename_result f (earley g T w)"
proof (cases "map_of (rules g) (start_rule g)")
  case None
  then show ?thesis
    by (simp add: earley_def rename_grammar_def map_of_rename_dict)
next
  case (Some rs)
  then have rs: "map_of (rules (rename_grammar f g)) (start_rule (rename_grammar f g))
                   = Some (map (rename_rule f) rs)"
    by (simp add: rename_grammar_def map_of_rename_dict)
  have p: "earley_positions (rename_grammar f g) T w 0 (initial_chart (map (rename_rule f) rs) w)
             = rename_result f (earley_positions g T w 0 (initial_chart rs w))"
    by (simp add: initial_chart_rename earley_positions_rename[OF assms])
  show ?thesis
  proof (cases "earley_positions g T w 0 (initial_chart rs w)")
    case (Inl e)
    with Some rs p show ?thesis by (simp add: earley_def)
  next
    case (Inr ch)
    show ?thesis
    proof (cases "ch = []")
      case True
      with Some rs p Inr show ?thesis by (simp add: earley_def rename_chart_def)
    next
      case False
      then have n: "length ch - 1 < length ch" by (cases ch) auto
      have "rename_chart f ch \<noteq> []" using False by (simp add: rename_chart_def)
      with Some rs p Inr False earley_final_rename[OF assms n, of T 0] show ?thesis
        by (simp add: earley_def)
    qed
  qed
qed


lemma dict_set_rename:
  "dict_set (rename_dict f d) k (map (rename_rule f) v) = rename_dict f (dict_set d k v)"
  by (induction d k v rule: dict_set.induct) (auto simp: rename_dict_def)

lemma add_rule_rename:
  "add_rule (rename_dict f d) (rename_rule f r) = rename_dict f (add_rule d r)"
proof (cases "map_of d (lhs r)")
  case None
  then show ?thesis
    using dict_set_rename[of f d "lhs r" "[r]"]
    by (simp add: add_rule_def map_of_rename_dict)
next
  case (Some l)
  then show ?thesis
    using dict_set_rename[of f d "lhs r" "l @ [r]"]
    by (simp add: add_rule_def map_of_rename_dict)
qed

lemma foldl_add_rule_rename:
  "foldl add_rule (rename_dict f d) (map (rename_rule f) rs) = rename_dict f (foldl add_rule d rs)"
  by (induction rs arbitrary: d) (simp_all add: add_rule_rename)

lemma Grammar_init_rename:
  "Grammar_init (map (rename_rule f) rs) s = rename_grammar f (Grammar_init rs s)"
  using foldl_add_rule_rename[of f "[]" rs]
  by (simp add: Grammar_init_def rename_grammar_def rename_dict_def)

lemma post_order_rename:
  "post_order (rename_item f item) = map (rename_rule f) (post_order item)"
proof (induction item rule: post_order.induct)
  case (1 r s d p)
  then have "map post_order (map (rename_item f) p) = map (map (rename_rule f)) (map post_order p)"
    by simp
  then show ?case by (simp add: map_concat del: map_map)
qed

lemma nesting_rename: "nesting (rename_item f item) = nesting item"
proof (induction item rule: nesting.induct)
  case (1 r s d p)
  then have "map nesting (map (rename_item f) p) = map nesting p" by simp
  then show ?case by (simp del: map_map)
qed

lemma to_lr_rename:
  "to_lr frames (rename_item f item) =
     (case to_lr frames item of
        Inl e \<Rightarrow> Inl e
      | Inr derivation \<Rightarrow> Inr (map (rename_rule f) derivation))"
  by (simp add: to_lr_nesting nesting_rename post_order_rename)

lemma accepting_rename: "accepting s (rename_item f item) = accepting s item"
  by (simp add: accepting_def)

lemma find_rename:
  "find (accepting s) (map (rename_item f) xs) = map_option (rename_item f) (find (accepting s) xs)"
  by (induction xs) (simp_all add: accepting_rename)

lemma acceptance_rename:
  "acceptance (rename_chart f ch) w s = map_option (rename_item f) (acceptance ch w s)"
proof (cases "length ch = length w + 1")
  case True
  then have "ch \<noteq> []" by auto
  then have "last (rename_chart f ch) = map (rename_item f) (last ch)"
    by (simp add: rename_chart_def last_map)
  with True show ?thesis by (simp add: acceptance_def find_rename)
next
  case False
  then show ?thesis by (simp add: acceptance_def)
qed

lemma Rule_repr_rename: "Rule_repr (rename_rule f r) = Rule_repr r"
  by (simp add: Rule_repr_def)

lemma main_rename:
  assumes "inj f"
  shows "main frames (map (rename_rule f) rs) s T w =
           (case main frames rs s T w of
              Inl e \<Rightarrow> Inl e
            | Inr None \<Rightarrow> Inr None
            | Inr (Some derivation) \<Rightarrow> Inr (Some (map (rename_rule f) derivation)))"
proof -
  have e: "earley (Grammar_init (map (rename_rule f) rs) s) T w
             = rename_result f (earley (Grammar_init rs s) T w)"
    by (simp add: Grammar_init_rename earley_rename[OF assms])
  show ?thesis
  proof (cases "earley (Grammar_init rs s) T w")
    case (Inl err)
    with e show ?thesis by (simp add: main_def)
  next
    case (Inr ch)
    show ?thesis
    proof (cases "acceptance ch w s")
      case None
      with e Inr show ?thesis by (simp add: main_def acceptance_rename)
    next
      case (Some item)
      with e Inr show ?thesis
        by (cases "to_lr frames item")
           (simp_all add: main_def acceptance_rename to_lr_rename rev_map)
    qed
  qed
qed

text \<open>
  C8. The pipeline is a function of the rules, the start symbol, the terminals and the
  sentence (and of the frames the interpreter allows), and it does not depend on which objects the rules are: under any injective
  renaming of the rules' identities it prints the same lines, and the rule sequence it
  returns is the same sequence under the renaming; an error or a rejection stays what it
  is. Among several accepting items the check takes the first in the insertion order of
  the last collection, and every item before it in that order is not accepting.
\<close>

theorem parse_deterministic:
  assumes "inj f"
  shows "script_output frames (map (rename_rule f) rs) s T w = script_output frames rs s T w \<and>
         main frames (map (rename_rule f) rs) s T w =
           (case main frames rs s T w of
              Inl e \<Rightarrow> Inl e
            | Inr None \<Rightarrow> Inr None
            | Inr (Some derivation) \<Rightarrow> Inr (Some (map (rename_rule f) derivation))) \<and>
         (\<forall>item. acceptance ch w s = Some item \<longrightarrow>
            (\<exists>k<length (last ch). last ch ! k = item \<and> (\<forall>j<k. \<not> accepting s (last ch ! j))))"
proof -
  note m = main_rename[OF assms, of frames rs s T w]
  have a: "script_output frames (map (rename_rule f) rs) s T w = script_output frames rs s T w"
  proof (cases "main frames rs s T w")
    case (Inl e)
    with m show ?thesis by (simp add: script_output_def)
  next
    case (Inr r)
    with m show ?thesis
      by (cases r) (simp_all add: script_output_def Rule_repr_rename)
  qed
  have c: "\<exists>k<length (last ch). last ch ! k = item \<and> (\<forall>j<k. \<not> accepting s (last ch ! j))"
    if "acceptance ch w s = Some item" for item
  proof -
    from that have "find (accepting s) (last ch) = Some item"
      by (auto simp: acceptance_def split: if_splits)
    then show ?thesis by (auto simp: find_Some_iff)
  qed
  show ?thesis using a m c by blast
qed

theorem parse_deterministic_witness:
  "inj Suc \<and>
   script_output 1000 (map (rename_rule Suc)
     [\<lparr>rid = 0, lhs = ''S'', rhs = [''S'', ''+'', ''S'']\<rparr>,
      \<lparr>rid = 1, lhs = ''S'', rhs = [''1'']\<rparr>])
     ''S'' {''1'', ''+''} [''1'', ''+'', ''1'', ''+'', ''1'']
     = Inr [''S -> S + S'', ''S -> 1'', ''S -> S + S'', ''S -> 1'', ''S -> 1''] \<and>
   script_output 1000
     [\<lparr>rid = 0, lhs = ''S'', rhs = [''S'', ''+'', ''S'']\<rparr>,
      \<lparr>rid = 1, lhs = ''S'', rhs = [''1'']\<rparr>]
     ''S'' {''1'', ''+''} [''1'', ''+'', ''1'', ''+'', ''1'']
     = Inr [''S -> S + S'', ''S -> 1'', ''S -> S + S'', ''S -> 1'', ''S -> 1'']"
proof -
  have i: "inj Suc" by simp
  have e: "script_output 1000
     [\<lparr>rid = 0, lhs = ''S'', rhs = [''S'', ''+'', ''S'']\<rparr>,
      \<lparr>rid = 1, lhs = ''S'', rhs = [''1'']\<rparr>]
     ''S'' {''1'', ''+''} [''1'', ''+'', ''1'', ''+'', ''1'']
     = Inr [''S -> S + S'', ''S -> 1'', ''S -> S + S'', ''S -> 1'', ''S -> 1'']"
    by code_simp
  show ?thesis
    using i e parse_deterministic[OF i, of 1000
     "[\<lparr>rid = 0, lhs = ''S'', rhs = [''S'', ''+'', ''S'']\<rparr>,
      \<lparr>rid = 1, lhs = ''S'', rhs = [''1'']\<rparr>]"
     "''S''" "{''1'', ''+''}" "[''1'', ''+'', ''1'', ''+'', ''1'']"]
    by simp
qed

end
